theory Spec2Isabelle
  imports Main "HOL-Library.Word"
begin

section \<open>Schema store: the versioned table-info store\<close>

text \<open>
  The store of package \<open>schemastore\<close> keeps, for one table, the list of table infos
  ordered by version, the version at which the table was deleted
  (\<open>math.MaxUint64\<close> while it is alive), and the DDL events that arrived before the
  store was initialized. Versions and timestamps are \<open>uint64\<close>, modelled as
  \<open>64 word\<close> with the unsigned order. The mutex only serializes callers and is left
  out. Of the \<open>readyToRead\<close> channel the model keeps whether it has been closed:
  closing it twice panics, and waiting on it blocks until it is closed. A panic, a fatal
  log and a returned error are values of type \<open>failure\<close>.
\<close>

type_synonym uint64 = "64 word"

datatype failure =
    PanicNotInitialized
  | PanicShouldNotHappen
  | PanicNotMonotonic
  | PanicAssertEmpty
  | PanicAssertNonEmpty
  | PanicAssertNonDeleted
  | PanicCloseOfClosedChannel
  | FatalNoTableInfo
  | ErrTableInfoDeleted
  | ErrNoVersionFound

datatype ActionType =
    ActionCreateTable
  | ActionDropTable
  | ActionAddColumn
  | ActionDropColumn
  | ActionTruncateTable
  | ActionRenameTable
  | ActionOther nat

record 'ti tableInfoItem =
  version :: uint64
  info :: 'ti

record 'raw PersistedDDLEvent =
  ddlType :: ActionType
  FinishedTs :: uint64
  ddlTableID :: int
  ddlSchemaID :: int
  ddlSchemaName :: string
  ddlSchemaVersion :: int
  ddlQuery :: string
  ddlTableInfo :: 'raw

record ('raw, 'ti) versionedTableInfoStore =
  tableID :: int
  infos :: "'ti tableInfoItem list"
  deleteVersion :: uint64
  initialized :: bool
  pendingDDLs :: "'raw PersistedDDLEvent list"
  readyToReadClosed :: bool

definition MaxUint64 :: uint64 where
  "MaxUint64 = - 1"

definition newEmptyVersionedTableInfoStore :: "int \<Rightarrow> ('raw, 'ti) versionedTableInfoStore" where
  "newEmptyVersionedTableInfoStore tid =
     \<lparr>tableID = tid, infos = [], deleteVersion = MaxUint64, initialized = False,
      pendingDDLs = [], readyToReadClosed = False\<rparr>"

text \<open>
  \<open>addInitialTableInfo\<close> appends the item without any check; the version is read
  from the info (\<open>info.Version\<close>), given here by the function \<open>ver\<close>.
\<close>

definition addInitialTableInfo ::
  "('ti \<Rightarrow> uint64) \<Rightarrow> ('raw, 'ti) versionedTableInfoStore \<Rightarrow> 'ti
     \<Rightarrow> ('raw, 'ti) versionedTableInfoStore" where
  "addInitialTableInfo ver v i = v\<lparr>infos := infos v @ [\<lparr>version = ver i, info = i\<rparr>]\<rparr>"

text \<open>
  Go's \<open>sort.Search(n, f)\<close>: binary search for the smallest index in \<open>[0, n)\<close> at
  which \<open>f\<close> holds, \<open>n\<close> when there is none. It probes the middle \<open>h\<close> of
  \<open>[i, j)\<close> and keeps the half that can still hold the answer.
\<close>

function search_loop :: "(nat \<Rightarrow> bool) \<Rightarrow> nat \<Rightarrow> nat \<Rightarrow> nat" where
  "search_loop f i j =
     (if i < j then
        (let h = (i + j) div 2 in
         if \<not> f h then search_loop f (h + 1) j else search_loop f i h)
      else i)"
  by pat_completeness auto
termination
  by (relation "measure (\<lambda>(f, i, j). j - i)") auto

declare search_loop.simps [simp del]

definition Search :: "nat \<Rightarrow> (nat \<Rightarrow> bool) \<Rightarrow> nat" where
  "Search n f = search_loop f 0 n"

definition getTableInfo :: "('raw, 'ti) versionedTableInfoStore \<Rightarrow> uint64 \<Rightarrow> failure + 'ti" where
  "getTableInfo v ts =
     (if \<not> initialized v then Inl PanicNotInitialized
      else if ts \<ge> deleteVersion v then Inl ErrTableInfoDeleted
      else
        (let target = Search (length (infos v)) (\<lambda>i. version (infos v ! i) > ts) in
         if target = 0 then Inl ErrNoVersionFound
         else Inr (info (infos v ! (target - 1)))))"

definition gc :: "('raw, 'ti) versionedTableInfoStore \<Rightarrow> uint64
    \<Rightarrow> failure + ('raw, 'ti) versionedTableInfoStore" where
  "gc v gcTs =
     (if \<not> initialized v then Inr v
      else if length (infos v) = 0 then Inl FatalNoTableInfo
      else
        (let target = Search (length (infos v)) (\<lambda>i. version (infos v ! i) > gcTs) in
         if target = 0 then Inr v
         else Inr (v\<lparr>infos := drop (target - 1) (infos v)\<rparr>)))"

text \<open>
  \<open>doApplyDDL\<close>. The first check panics when the store is not empty and the event's
  \<open>FinishedTs\<close> is not above the last version; the "ignore job" check after it tests
  the same condition. \<open>wrap\<close> stands for \<open>common.WrapTableInfo\<close> followed by
  \<open>InitPreSQLs\<close>, which build the stored info from the event.
\<close>

definition appendInfo :: "('raw PersistedDDLEvent \<Rightarrow> 'ti) \<Rightarrow> ('raw, 'ti) versionedTableInfoStore
    \<Rightarrow> 'raw PersistedDDLEvent \<Rightarrow> ('raw, 'ti) versionedTableInfoStore" where
  "appendInfo wrap v event =
     v\<lparr>infos := infos v @ [\<lparr>version = FinishedTs event, info = wrap event\<rparr>]\<rparr>"

definition doApplyDDL :: "('raw PersistedDDLEvent \<Rightarrow> 'ti) \<Rightarrow> ('raw, 'ti) versionedTableInfoStore
    \<Rightarrow> 'raw PersistedDDLEvent \<Rightarrow> failure + ('raw, 'ti) versionedTableInfoStore" where
  "doApplyDDL wrap v event =
     (if length (infos v) \<noteq> 0 \<and> FinishedTs event \<le> version (last (infos v))
      then Inl PanicNotMonotonic
      else if length (infos v) > 0 \<and> FinishedTs event \<le> version (last (infos v))
      then Inr v
      else
        (case ddlType event of
           ActionCreateTable \<Rightarrow>
             if length (infos v) = 1 then Inr v
             else if length (infos v) \<noteq> 0 then Inl PanicAssertEmpty
             else Inr (appendInfo wrap v event)
         | ActionRenameTable \<Rightarrow>
             if length (infos v) = 0 then Inl PanicAssertNonEmpty
             else Inr (appendInfo wrap v event)
         | ActionAddColumn \<Rightarrow>
             if length (infos v) = 0 then Inl PanicAssertNonEmpty
             else Inr (appendInfo wrap v event)
         | ActionDropColumn \<Rightarrow>
             if length (infos v) = 0 then Inl PanicAssertNonEmpty
             else Inr (appendInfo wrap v event)
         | ActionDropTable \<Rightarrow> Inr (v\<lparr>deleteVersion := FinishedTs event\<rparr>)
         | ActionTruncateTable \<Rightarrow> Inr (v\<lparr>deleteVersion := FinishedTs event\<rparr>)
         | ActionOther _ \<Rightarrow> Inr v))"

definition applyDDLFromPersistStorage :: "('raw PersistedDDLEvent \<Rightarrow> 'ti)
    \<Rightarrow> ('raw, 'ti) versionedTableInfoStore \<Rightarrow> 'raw PersistedDDLEvent
    \<Rightarrow> failure + ('raw, 'ti) versionedTableInfoStore" where
  "applyDDLFromPersistStorage wrap v event =
     (if initialized v then Inl PanicShouldNotHappen else doApplyDDL wrap v event)"

definition applyDDL :: "('raw PersistedDDLEvent \<Rightarrow> 'ti)
    \<Rightarrow> ('raw, 'ti) versionedTableInfoStore \<Rightarrow> 'raw PersistedDDLEvent
    \<Rightarrow> failure + ('raw, 'ti) versionedTableInfoStore" where
  "applyDDL wrap v event =
     (if deleteVersion v \<noteq> MaxUint64 then Inl PanicAssertNonDeleted
      else if \<not> initialized v then Inr (v\<lparr>pendingDDLs := pendingDDLs v @ [event]\<rparr>)
      else doApplyDDL wrap v event)"

text \<open>
  \<open>setTableInfoInitialized\<close> applies the pending events in order, marks the store
  initialized and closes \<open>readyToRead\<close>; a panic inside the loop aborts it, and so
  does closing the channel a second time. \<open>waitTableInfoInitialized\<close> returns once
  the channel is closed; \<open>None\<close> stands for a caller that stays blocked.
\<close>

fun applyPending :: "('raw PersistedDDLEvent \<Rightarrow> 'ti) \<Rightarrow> ('raw, 'ti) versionedTableInfoStore
    \<Rightarrow> 'raw PersistedDDLEvent list \<Rightarrow> failure + ('raw, 'ti) versionedTableInfoStore" where
  "applyPending wrap v [] = Inr v"
| "applyPending wrap v (job # jobs) =
     (case doApplyDDL wrap v job of
        Inl e \<Rightarrow> Inl e
      | Inr v' \<Rightarrow> applyPending wrap v' jobs)"

definition setTableInfoInitialized :: "('raw PersistedDDLEvent \<Rightarrow> 'ti)
    \<Rightarrow> ('raw, 'ti) versionedTableInfoStore \<Rightarrow> failure + ('raw, 'ti) versionedTableInfoStore" where
  "setTableInfoInitialized wrap v =
     (case applyPending wrap v (pendingDDLs v) of
        Inl e \<Rightarrow> Inl e
      | Inr v' \<Rightarrow>
          if readyToReadClosed v' then Inl PanicCloseOfClosedChannel
          else Inr (v'\<lparr>initialized := True, readyToReadClosed := True\<rparr>))"

definition waitTableInfoInitialized :: "('raw, 'ti) versionedTableInfoStore \<Rightarrow> unit option" where
  "waitTableInfoInitialized v = (if readyToReadClosed v then Some () else None)"

subsection \<open>Binary search finds the split point of an ordered list\<close>

lemma search_loop_split:
  "i \<le> j \<Longrightarrow> (\<And>a b. i \<le> a \<Longrightarrow> a \<le> b \<Longrightarrow> b < j \<Longrightarrow> f a \<Longrightarrow> f b) \<Longrightarrow>
   i \<le> search_loop f i j \<and> search_loop f i j \<le> j \<and>
   (\<forall>k. i \<le> k \<and> k < search_loop f i j \<longrightarrow> \<not> f k) \<and>
   (\<forall>k. search_loop f i j \<le> k \<and> k < j \<longrightarrow> f k)"
proof (induction f i j rule: search_loop.induct)
  case (1 f i j)
  show ?case
  proof (cases "i < j")
    case False
    then have "search_loop f i j = i"
      by (subst search_loop.simps) simp
    with False "1.prems"(1) show ?thesis
      by auto
  next
    case True
    define h where "h = (i + j) div 2"
    have hb: "i \<le> h" "h < j" using True by (simp_all add: h_def)
    show ?thesis
    proof (cases "f h")
      case fh: True
      have eq: "search_loop f i j = search_loop f i h"
        using True fh by (simp add: search_loop.simps [of f i j] h_def)
      have mono: "\<And>a b. i \<le> a \<Longrightarrow> a \<le> b \<Longrightarrow> b < h \<Longrightarrow> f a \<Longrightarrow> f b"
      proof -
        fix a b assume "i \<le> a" "a \<le> b" "b < h" "f a"
        then show "f b" using "1.prems"(2) [of a b] hb by linarith
      qed
      have IH: "i \<le> search_loop f i h \<and> search_loop f i h \<le> h \<and>
          (\<forall>k. i \<le> k \<and> k < search_loop f i h \<longrightarrow> \<not> f k) \<and>
          (\<forall>k. search_loop f i h \<le> k \<and> k < h \<longrightarrow> f k)"
        using "1.IH"(2) [OF True h_def _ hb(1) mono] fh by simp
      have up: "\<And>k. h \<le> k \<Longrightarrow> k < j \<Longrightarrow> f k"
        by (rule "1.prems"(2) [OF hb(1) _ _ fh])
      have "\<And>k. search_loop f i h \<le> k \<Longrightarrow> k < j \<Longrightarrow> f k"
      proof -
        fix k assume k: "search_loop f i h \<le> k" "k < j"
        show "f k"
        proof (cases "k < h")
          case True with k IH show ?thesis by blast
        next
          case False with k up show ?thesis by simp
        qed
      qed
      with IH hb show ?thesis
        unfolding eq by auto
    next
      case nfh: False
      have eq: "search_loop f i j = search_loop f (h + 1) j"
        using True nfh by (simp add: search_loop.simps [of f i j] h_def)
      have mono: "\<And>a b. h + 1 \<le> a \<Longrightarrow> a \<le> b \<Longrightarrow> b < j \<Longrightarrow> f a \<Longrightarrow> f b"
      proof -
        fix a b assume "h + 1 \<le> a" "a \<le> b" "b < j" "f a"
        then show "f b" using "1.prems"(2) [of a b] hb by linarith
      qed
      have IH: "h + 1 \<le> search_loop f (h + 1) j \<and> search_loop f (h + 1) j \<le> j \<and>
          (\<forall>k. h + 1 \<le> k \<and> k < search_loop f (h + 1) j \<longrightarrow> \<not> f k) \<and>
          (\<forall>k. search_loop f (h + 1) j \<le> k \<and> k < j \<longrightarrow> f k)"
        using "1.IH"(1) [OF True h_def _ _ mono] nfh hb by simp
      have down: "\<And>k. i \<le> k \<Longrightarrow> k \<le> h \<Longrightarrow> \<not> f k"
        using "1.prems"(2) [OF _ _ hb(2)] nfh by blast
      have "\<And>k. i \<le> k \<Longrightarrow> k < search_loop f (h + 1) j \<Longrightarrow> \<not> f k"
      proof -
        fix k assume k: "i \<le> k" "k < search_loop f (h + 1) j"
        show "\<not> f k"
        proof (cases "k \<le> h")
          case True with k down show ?thesis by simp
        next
          case False with k IH show ?thesis by simp
        qed
      qed
      with IH hb show ?thesis
        unfolding eq by auto
    qed
  qed
qed

definition splitAt :: "'ti tableInfoItem list \<Rightarrow> uint64 \<Rightarrow> nat \<Rightarrow> bool" where
  "splitAt xs ts r \<longleftrightarrow>
     r \<le> length xs \<and> (\<forall>k<r. version (xs ! k) \<le> ts) \<and>
     (\<forall>k. r \<le> k \<and> k < length xs \<longrightarrow> ts < version (xs ! k))"

lemma Search_splitAt:
  assumes "sorted (map version xs)"
  shows "splitAt xs ts (Search (length xs) (\<lambda>i. version (xs ! i) > ts))"
proof -
  let ?f = "\<lambda>i. version (xs ! i) > ts"
  have mono: "\<And>a b. 0 \<le> a \<Longrightarrow> a \<le> b \<Longrightarrow> b < length xs \<Longrightarrow> ?f a \<Longrightarrow> ?f b"
  proof -
    fix a b assume ab: "0 \<le> a" "a \<le> b" "b < length xs" "?f a"
    have "version (xs ! a) \<le> version (xs ! b)"
      using sorted_nth_mono [OF assms, of a b] ab by simp
    with ab(4) show "?f b" by simp
  qed
  have "0 \<le> search_loop ?f 0 (length xs) \<and> search_loop ?f 0 (length xs) \<le> length xs \<and>
    (\<forall>k. 0 \<le> k \<and> k < search_loop ?f 0 (length xs) \<longrightarrow> \<not> ?f k) \<and>
    (\<forall>k. search_loop ?f 0 (length xs) \<le> k \<and> k < length xs \<longrightarrow> ?f k)"
    by (rule search_loop_split [of 0 "length xs" ?f, OF _ mono]) simp_all
  then show ?thesis
    by (simp add: splitAt_def Search_def not_less)
qed

lemma splitAt_unique:
  assumes "splitAt xs ts r" "splitAt xs ts r'"
  shows "r = r'"
proof (rule ccontr)
  assume "r \<noteq> r'"
  then consider "r < r'" | "r' < r" by linarith
  then show False
  proof cases
    case 1
    with assms have "version (xs ! r) \<le> ts" "ts < version (xs ! r)"
      by (auto simp: splitAt_def)
    then show False by simp
  next
    case 2
    with assms have "version (xs ! r') \<le> ts" "ts < version (xs ! r')"
      by (auto simp: splitAt_def)
    then show False by simp
  qed
qed

lemma splitAt_zero_iff:
  assumes "splitAt xs ts r"
  shows "r = 0 \<longleftrightarrow> (\<forall>it\<in>set xs. ts < version it)"
proof
  assume "r = 0"
  with assms show "\<forall>it\<in>set xs. ts < version it"
    by (auto simp: splitAt_def in_set_conv_nth)
next
  assume all: "\<forall>it\<in>set xs. ts < version it"
  show "r = 0"
  proof (rule ccontr)
    assume "r \<noteq> 0"
    with assms have "0 < length xs" "version (xs ! 0) \<le> ts"
      by (auto simp: splitAt_def)
    moreover from this all have "ts < version (xs ! 0)" by simp
    ultimately show False by simp
  qed
qed

lemma splitAt_largest:
  assumes "sorted (map version xs)" "splitAt xs ts r" "0 < r"
  shows "xs ! (r - 1) \<in> set xs \<and> version (xs ! (r - 1)) \<le> ts \<and>
         (\<forall>it\<in>set xs. version it \<le> ts \<longrightarrow> version it \<le> version (xs ! (r - 1)))"
proof -
  from assms(2,3) have r: "r - 1 < length xs" "r - 1 < r" by (auto simp: splitAt_def)
  have le: "version (xs ! (r - 1)) \<le> ts"
    using assms(2) r by (simp add: splitAt_def)
  have "\<And>it. it \<in> set xs \<Longrightarrow> version it \<le> ts \<Longrightarrow> version it \<le> version (xs ! (r - 1))"
  proof -
    fix it assume "it \<in> set xs" and vle: "version it \<le> ts"
    then obtain k where k: "k < length xs" "xs ! k = it" by (auto simp: in_set_conv_nth)
    have "k < r"
    proof (rule ccontr)
      assume "\<not> k < r"
      with assms(2) k have "ts < version it" by (auto simp: splitAt_def)
      with vle show False by simp
    qed
    then have "k \<le> r - 1" by simp
    then show "version it \<le> version (xs ! (r - 1))"
      using sorted_nth_mono [OF assms(1), of k "r - 1"] r k by simp
  qed
  with le r show ?thesis by simp
qed

subsection \<open>Reading the store\<close>

text \<open>
  C7 (amended). The store's item list is ordered by version (the struct's comment
  "ordered by ts"; \<open>doApplyDDL\<close> keeps it so, see \<open>doApplyDDL_sorted\<close>). For an
  initialized store, \<open>getTableInfo ts\<close> fails exactly when the table is deleted at
  or before \<open>ts\<close> (\<open>deleteVersion \<le> ts\<close>: the guard is
  \<open>ts >= v.deleteVersion\<close>, so a read at the delete version itself fails too) or
  when no stored version is \<open>\<le> ts\<close>; the two errors are told apart; and a
  returned info belongs to a stored item whose version is the largest one \<open>\<le> ts\<close>.
\<close>

theorem getTableInfo_largest_version:
  assumes "initialized v" and "sorted (map version (infos v))"
  shows "(isl (getTableInfo v ts) \<longleftrightarrow>
            deleteVersion v \<le> ts \<or> (\<forall>it\<in>set (infos v). ts < version it)) \<and>
         (getTableInfo v ts = Inl ErrTableInfoDeleted \<longleftrightarrow> deleteVersion v \<le> ts) \<and>
         (getTableInfo v ts = Inl ErrNoVersionFound \<longleftrightarrow>
            ts < deleteVersion v \<and> (\<forall>it\<in>set (infos v). ts < version it)) \<and>
         (\<forall>i. getTableInfo v ts = Inr i \<longrightarrow>
            (\<exists>it\<in>set (infos v). info it = i \<and> version it \<le> ts \<and>
               (\<forall>it'\<in>set (infos v). version it' \<le> ts \<longrightarrow> version it' \<le> version it)))"
proof -
  define r where "r = Search (length (infos v)) (\<lambda>i. version (infos v ! i) > ts)"
  have sp: "splitAt (infos v) ts r"
    unfolding r_def by (rule Search_splitAt [OF assms(2)])
  have z: "r = 0 \<longleftrightarrow> (\<forall>it\<in>set (infos v). ts < version it)"
    by (rule splitAt_zero_iff [OF sp])
  show ?thesis
  proof (cases "deleteVersion v \<le> ts")
    case True
    then have "getTableInfo v ts = Inl ErrTableInfoDeleted"
      using assms(1) by (simp add: getTableInfo_def)
    with True show ?thesis by (auto simp: not_less)
  next
    case False
    show ?thesis
    proof (cases "r = 0")
      case True
      then have "getTableInfo v ts = Inl ErrNoVersionFound"
        using assms(1) False by (simp add: getTableInfo_def r_def)
      with False True z show ?thesis by simp
    next
      case nz: False
      then have g: "getTableInfo v ts = Inr (info (infos v ! (r - 1)))"
        using assms(1) False by (simp add: getTableInfo_def r_def Let_def)
      from nz have "0 < r" by simp
      note lg = splitAt_largest [OF assms(2) sp this]
      from g False nz z lg show ?thesis by auto
    qed
  qed
qed

subsection \<open>Garbage collection\<close>

lemma splitAt_filter:
  assumes "splitAt xs ts r"
  shows "filter (\<lambda>it. version it \<le> ts) xs = take r xs"
    and "filter (\<lambda>it. ts < version it) xs = drop r xs"
proof -
  have a: "\<forall>x\<in>set (take r xs). version x \<le> ts"
    using assms by (auto simp: splitAt_def in_set_conv_nth)
  have b: "\<forall>x\<in>set (drop r xs). ts < version x"
    using assms by (auto simp: splitAt_def in_set_conv_nth)
  have a': "\<forall>x\<in>set (take r xs). \<not> ts < version x" using a by (simp add: not_less)
  have b': "\<forall>x\<in>set (drop r xs). \<not> version x \<le> ts" using b by (simp add: not_le)
  have "filter (\<lambda>it. version it \<le> ts) xs =
      filter (\<lambda>it. version it \<le> ts) (take r xs @ drop r xs)"
    by (simp only: append_take_drop_id)
  also have "\<dots> = filter (\<lambda>it. version it \<le> ts) (take r xs) @
      filter (\<lambda>it. version it \<le> ts) (drop r xs)"
    by (rule filter_append)
  also have "\<dots> = take r xs"
    using a b' by (simp add: filter_empty_conv)
  finally show "filter (\<lambda>it. version it \<le> ts) xs = take r xs" .
  have "filter (\<lambda>it. ts < version it) xs =
      filter (\<lambda>it. ts < version it) (take r xs @ drop r xs)"
    by (simp only: append_take_drop_id)
  also have "\<dots> = filter (\<lambda>it. ts < version it) (take r xs) @
      filter (\<lambda>it. ts < version it) (drop r xs)"
    by (rule filter_append)
  also have "\<dots> = drop r xs"
    using a' b by (simp add: filter_empty_conv)
  finally show "filter (\<lambda>it. ts < version it) xs = drop r xs" .
qed

lemma splitAt_drop:
  assumes "splitAt xs gcTs r" "0 < r" "splitAt xs ts r'" "gcTs \<le> ts"
  shows "r \<le> r'" and "splitAt (drop (r - 1) xs) ts (r' - (r - 1))"
proof -
  from assms(1,2) have r: "r - 1 < length xs" "version (xs ! (r - 1)) \<le> gcTs"
    by (auto simp: splitAt_def)
  show rr: "r \<le> r'"
  proof (rule ccontr)
    assume "\<not> r \<le> r'"
    then have "r' \<le> r - 1" by simp
    with assms(3) r(1) have "ts < version (xs ! (r - 1))" by (simp add: splitAt_def)
    with r(2) assms(4) show False by simp
  qed
  from assms(3) have r': "r' \<le> length xs" by (simp add: splitAt_def)
  have 1: "r' - (r - 1) \<le> length (drop (r - 1) xs)" using r' by simp
  have 2: "\<forall>k<r' - (r - 1). version (drop (r - 1) xs ! k) \<le> ts"
  proof (intro allI impI)
    fix k assume k: "k < r' - (r - 1)"
    then have "r - 1 + k < r'" by simp
    with assms(3) have "version (xs ! (r - 1 + k)) \<le> ts" by (simp add: splitAt_def)
    moreover have "r - 1 + k \<le> length xs" using k r' by simp
    ultimately show "version (drop (r - 1) xs ! k) \<le> ts" by simp
  qed
  have 3: "\<forall>k. r' - (r - 1) \<le> k \<and> k < length (drop (r - 1) xs) \<longrightarrow>
             ts < version (drop (r - 1) xs ! k)"
  proof (intro allI impI)
    fix k assume k: "r' - (r - 1) \<le> k \<and> k < length (drop (r - 1) xs)"
    then have "r' \<le> r - 1 + k" "r - 1 + k < length xs" by auto
    with assms(3) have "ts < version (xs ! (r - 1 + k))" by (simp add: splitAt_def)
    moreover have "r - 1 + k \<le> length xs" using k by auto
    ultimately show "ts < version (drop (r - 1) xs ! k)" by simp
  qed
  from 1 2 3 show "splitAt (drop (r - 1) xs) ts (r' - (r - 1))"
    unfolding splitAt_def by blast
qed

lemma getTableInfo_splitAt:
  assumes "initialized v" "splitAt (infos v) ts r" "sorted (map version (infos v))"
  shows "getTableInfo v ts =
     (if deleteVersion v \<le> ts then Inl ErrTableInfoDeleted
      else if r = 0 then Inl ErrNoVersionFound
      else Inr (info (infos v ! (r - 1))))"
proof -
  have "Search (length (infos v)) (\<lambda>i. version (infos v ! i) > ts) = r"
    by (rule splitAt_unique [OF Search_splitAt [OF assms(3)] assms(2)])
  then show ?thesis using assms(1) by (simp add: getTableInfo_def Let_def)
qed

text \<open>
  C10. For an initialized, non-empty store whose items are ordered by version,
  \<open>gc gcTs\<close> returns normally and leaves a non-empty list: when some version is
  \<open>\<le> gcTs\<close> it is the item with the largest such version followed by all items
  with a version above \<open>gcTs\<close>, otherwise the list is unchanged. The delete
  version is untouched, and every read at \<open>ts \<ge> gcTs\<close> gives the same result
  after the collection as before it.
\<close>

theorem gc_keeps_later_reads:
  assumes "initialized v" and "infos v \<noteq> []" and "sorted (map version (infos v))"
    and "gcTs \<le> ts"
  shows "\<exists>v'. gc v gcTs = Inr v' \<and> infos v' \<noteq> [] \<and>
           infos v' =
             (if \<exists>it\<in>set (infos v). version it \<le> gcTs
              then last (filter (\<lambda>it. version it \<le> gcTs) (infos v)) #
                   filter (\<lambda>it. gcTs < version it) (infos v)
              else infos v) \<and>
           deleteVersion v' = deleteVersion v \<and> initialized v' \<and>
           getTableInfo v' ts = getTableInfo v ts"
proof -
  define xs where "xs = infos v"
  define r where "r = Search (length xs) (\<lambda>i. version (xs ! i) > gcTs)"
  define r' where "r' = Search (length xs) (\<lambda>i. version (xs ! i) > ts)"
  have srt: "sorted (map version xs)" using assms(3) by (simp add: xs_def)
  have sp: "splitAt xs gcTs r" unfolding r_def by (rule Search_splitAt [OF srt])
  have sp': "splitAt xs ts r'" unfolding r'_def by (rule Search_splitAt [OF srt])
  have z: "r = 0 \<longleftrightarrow> (\<forall>it\<in>set xs. gcTs < version it)" by (rule splitAt_zero_iff [OF sp])
  show ?thesis
  proof (cases "r = 0")
    case True
    then have "gc v gcTs = Inr v"
      using assms(1,2) by (simp add: gc_def r_def xs_def)
    moreover have "\<not> (\<exists>it\<in>set (infos v). version it \<le> gcTs)"
      using True z by (auto simp: xs_def not_le)
    ultimately show ?thesis using assms(1,2) by simp
  next
    case False
    then have pos: "0 < r" by simp
    define v' where "v' = v\<lparr>infos := drop (r - 1) xs\<rparr>"
    have g: "gc v gcTs = Inr v'"
      using assms(1,2) False by (simp add: gc_def r_def xs_def v'_def Let_def)
    from sp pos have rl: "r - 1 < length xs" by (auto simp: splitAt_def)
    have dr: "drop (r - 1) xs = xs ! (r - 1) # drop r xs"
      using Cons_nth_drop_Suc [OF rl] pos by simp
    have tk: "take r xs \<noteq> []" using pos rl by auto
    have rle: "r \<le> length xs" using sp by (simp add: splitAt_def)
    have "last (take r xs) = xs ! (r - 1)"
      using pos rle tk by (simp add: last_conv_nth min_absorb2)
    then have shape: "drop (r - 1) xs =
        last (filter (\<lambda>it. version it \<le> gcTs) xs) # filter (\<lambda>it. gcTs < version it) xs"
      using dr by (simp add: splitAt_filter [OF sp])
    have ex: "\<exists>it\<in>set xs. version it \<le> gcTs"
      using False z by (auto simp: not_less)
    have srt': "sorted (map version (infos v'))"
      using srt by (simp add: v'_def drop_map [symmetric] sorted_wrt_drop)
    note d = splitAt_drop [OF sp pos sp' assms(4)]
    have sp'': "splitAt (infos v') ts (r' - (r - 1))"
      using d(2) by (simp add: v'_def)
    have init': "initialized v'" using assms(1) by (simp add: v'_def)
    have r'pos: "r' - (r - 1) \<noteq> 0" "r' \<noteq> 0" using d(1) pos by simp_all
    have idx: "infos v' ! (r' - (r - 1) - 1) = xs ! (r' - 1)"
    proof -
      have "r - 1 + (r' - (r - 1) - 1) = r' - 1" using d(1) pos by simp
      moreover have "r - 1 \<le> length xs" using rl by simp
      ultimately show ?thesis by (simp add: v'_def)
    qed
    have "getTableInfo v' ts =
        (if deleteVersion v' \<le> ts then Inl ErrTableInfoDeleted
         else Inr (info (xs ! (r' - 1))))"
      using getTableInfo_splitAt [OF init' sp'' srt'] r'pos idx by simp
    moreover have "getTableInfo v ts =
        (if deleteVersion v \<le> ts then Inl ErrTableInfoDeleted
         else Inr (info (xs ! (r' - 1))))"
      using getTableInfo_splitAt [OF assms(1) sp' [unfolded xs_def] assms(3)] r'pos
      by (simp add: xs_def)
    moreover have "deleteVersion v' = deleteVersion v" by (simp add: v'_def)
    ultimately have same: "getTableInfo v' ts = getTableInfo v ts" by simp
    have "infos v' \<noteq> []" using dr by (simp add: v'_def)
    moreover have "infos v' =
             (if \<exists>it\<in>set (infos v). version it \<le> gcTs
              then last (filter (\<lambda>it. version it \<le> gcTs) (infos v)) #
                   filter (\<lambda>it. gcTs < version it) (infos v)
              else infos v)"
      using shape ex by (simp add: v'_def xs_def)
    ultimately show ?thesis
      using g same init' \<open>deleteVersion v' = deleteVersion v\<close> by blast
  qed
qed

subsection \<open>Applying DDL events\<close>

lemma sorted_snoc:
  fixes y :: "'a::linorder"
  shows "sorted xs \<Longrightarrow> (xs \<noteq> [] \<longrightarrow> last xs \<le> y) \<Longrightarrow> sorted (xs @ [y])"
proof (induction xs)
  case Nil
  then show ?case by simp
next
  case (Cons x xs)
  show ?case
  proof (cases "xs = []")
    case True
    with Cons.prems show ?thesis by simp
  next
    case False
    with Cons.prems have "sorted (xs @ [y])" "\<forall>z\<in>set xs. x \<le> z" "last xs \<le> y"
      using Cons.IH by simp_all
    moreover from False this(2) have "x \<le> last xs" by simp
    ultimately show ?thesis by auto
  qed
qed

lemma appendInfo_sorted:
  assumes "sorted (map version (infos v))"
    and "infos v \<noteq> [] \<longrightarrow> version (last (infos v)) < FinishedTs event"
  shows "sorted (map version (infos (appendInfo wrap v event)))"
proof -
  have "map version (infos v) \<noteq> [] \<longrightarrow> last (map version (infos v)) \<le> FinishedTs event"
    using assms(2) by (auto simp: last_map)
  from sorted_snoc [OF assms(1) this] show ?thesis
    by (simp add: appendInfo_def)
qed

lemma doApplyDDL_sorted:
  assumes "doApplyDDL wrap v event = Inr v'" and "sorted (map version (infos v))"
  shows "sorted (map version (infos v'))"
proof -
  have nm: "infos v \<noteq> [] \<longrightarrow> version (last (infos v)) < FinishedTs event"
    using assms(1) by (auto simp: doApplyDDL_def split: if_splits)
  note ap = appendInfo_sorted [OF assms(2) nm, of wrap]
  from assms(1) have "v' = v \<or> v' = appendInfo wrap v event \<or>
      v' = v\<lparr>deleteVersion := FinishedTs event\<rparr>"
    by (auto simp: doApplyDDL_def split: if_splits ActionType.splits)
  with ap assms(2) show ?thesis by auto
qed

subsection \<open>A concrete store\<close>

text \<open>
  Three versions 1, 5 and 8 of a table deleted at version 20, and an
  \<open>ADD COLUMN\<close> event finished at a chosen timestamp.
\<close>

definition exampleStore :: "(unit, nat) versionedTableInfoStore" where
  "exampleStore =
     \<lparr>tableID = 1,
      infos = [\<lparr>version = 1, info = 10\<rparr>, \<lparr>version = 5, info = 50\<rparr>,
               \<lparr>version = 8, info = 80\<rparr>],
      deleteVersion = 20, initialized = True, pendingDDLs = [], readyToReadClosed = True\<rparr>"

definition staleEvent :: "uint64 \<Rightarrow> unit PersistedDDLEvent" where
  "staleEvent ts =
     \<lparr>ddlType = ActionAddColumn, FinishedTs = ts, ddlTableID = 1, ddlSchemaID = 1,
      ddlSchemaName = ''test'', ddlSchemaVersion = 1, ddlQuery = ''alter table t add c int'',
      ddlTableInfo = ()\<rparr>"

theorem getTableInfo_largest_version_witness:
  "initialized exampleStore \<and> sorted (map version (infos exampleStore)) \<and>
   getTableInfo exampleStore 7 = Inr 50 \<and>
   \<not> isl (getTableInfo exampleStore 7) \<and>
   getTableInfo exampleStore 0 = Inl ErrNoVersionFound \<and>
   getTableInfo exampleStore 20 = Inl ErrTableInfoDeleted"
  using getTableInfo_largest_version [of exampleStore 7]
  by (simp add: exampleStore_def getTableInfo_def Search_def search_loop.simps)

theorem gc_keeps_later_reads_witness:
  "initialized exampleStore \<and> infos exampleStore \<noteq> [] \<and>
   sorted (map version (infos exampleStore)) \<and> (6 :: uint64) \<le> 7 \<and>
   gc exampleStore 6 =
     Inr (exampleStore\<lparr>infos := [\<lparr>version = 5, info = 50\<rparr>, \<lparr>version = 8, info = 80\<rparr>]\<rparr>) \<and>
   getTableInfo (exampleStore\<lparr>infos := [\<lparr>version = 5, info = 50\<rparr>, \<lparr>version = 8, info = 80\<rparr>]\<rparr>) 7 =
     getTableInfo exampleStore 7"
  using gc_keeps_later_reads [of exampleStore 6 7]
  by (simp add: exampleStore_def gc_def getTableInfo_def Search_def search_loop.simps)

text \<open>
  C8 (amended). On a non-empty store, an event whose \<open>FinishedTs\<close> is lower than
  or equal to the last stored version makes \<open>doApplyDDL\<close> panic ("ddl job finished
  ts should be monotonically increasing"): the check comes first, so the
  "ignore job" branch below it is never reached. \<open>applyDDLFromPersistStorage\<close>
  and \<open>applyDDL\<close> pass the panic on whenever they reach \<open>doApplyDDL\<close>.
\<close>

theorem doApplyDDL_stale_event_panics:
  assumes "infos v \<noteq> []" and "FinishedTs event \<le> version (last (infos v))"
  shows "doApplyDDL wrap v event = Inl PanicNotMonotonic \<and>
         applyDDLFromPersistStorage wrap v event =
           Inl (if initialized v then PanicShouldNotHappen else PanicNotMonotonic) \<and>
         applyDDL wrap v event =
           (if deleteVersion v \<noteq> MaxUint64 then Inl PanicAssertNonDeleted
            else if \<not> initialized v then Inr (v\<lparr>pendingDDLs := pendingDDLs v @ [event]\<rparr>)
            else Inl PanicNotMonotonic)"
  using assms by (simp add: doApplyDDL_def applyDDL_def applyDDLFromPersistStorage_def)

theorem doApplyDDL_stale_event_panics_witness:
  "infos exampleStore \<noteq> [] \<and>
   FinishedTs (staleEvent 5) \<le> version (last (infos exampleStore)) \<and>
   doApplyDDL (\<lambda>e. 0) exampleStore (staleEvent 5) = Inl PanicNotMonotonic"
  using doApplyDDL_stale_event_panics [of exampleStore "staleEvent 5" "\<lambda>e. 0"]
  by (simp add: exampleStore_def staleEvent_def)

text \<open>
  The claim as stated (the stale event is ignored, the store is unchanged and the apply
  does not abort) fails on the example store, both for an equal timestamp (8) and for a
  lower one (3).
\<close>

theorem doApplyDDL_stale_event_not_ignored:
  "infos exampleStore \<noteq> [] \<and>
   FinishedTs (staleEvent 8) \<le> version (last (infos exampleStore)) \<and>
   doApplyDDL (\<lambda>e. 0) exampleStore (staleEvent 8) \<noteq> Inr exampleStore \<and>
   doApplyDDL (\<lambda>e. 0) exampleStore (staleEvent 8) = Inl PanicNotMonotonic \<and>
   FinishedTs (staleEvent 3) < version (last (infos exampleStore)) \<and>
   doApplyDDL (\<lambda>e. 0) exampleStore (staleEvent 3) = Inl PanicNotMonotonic \<and>
   applyDDL (\<lambda>e. 0) (exampleStore\<lparr>deleteVersion := MaxUint64\<rparr>) (staleEvent 3) =
     Inl PanicNotMonotonic"
  by (simp add: exampleStore_def staleEvent_def doApplyDDL_def applyDDL_def)

text \<open>
  The claim as stated, with "deleted before \<open>ts\<close>" read strictly
  (\<open>deleteVersion < ts\<close>), fails at \<open>ts = deleteVersion\<close>: the example store is
  deleted at 20 and holds versions \<open>\<le> 20\<close>, yet the read at 20 is an error.
\<close>

theorem getTableInfo_error_at_delete_version:
  "initialized exampleStore \<and> sorted (map version (infos exampleStore)) \<and>
   \<not> deleteVersion exampleStore < 20 \<and>
   hd (infos exampleStore) \<in> set (infos exampleStore) \<and>
   version (hd (infos exampleStore)) \<le> 20 \<and>
   getTableInfo exampleStore 20 = Inl ErrTableInfoDeleted"
  by (simp add: exampleStore_def getTableInfo_def)



section \<open>Replication DB\<close>

text \<open>
  Identifiers as on the wire (\<open>heartbeatpb\<close>): a \<open>DispatcherID\<close> is a pair of
  \<open>uint64\<close> halves (high, low), table and schema ids are \<open>int64\<close> values that are
  only compared, a node id is a string.
\<close>

type_synonym DispatcherID = "uint64 \<times> uint64"
type_synonym NodeID = string

datatype ComponentState = Unknown | Absent | Working | Stopped

record TableSpan =
  TableID :: int
  StartKey :: string
  EndKey :: string

record SpanReplication =
  ID :: DispatcherID
  Span :: TableSpan
  ChangefeedID :: string
  schemaID :: int
  nodeID :: NodeID
  status :: ComponentState
  checkpointTs :: uint64

text \<open>
  Modelled from the spec: the replication DB (package \<open>replica\<close>) is not part of the
  sources at hand. Following the spec's data model it is a primary collection of spans
  (\<open>allTasks\<close>, in insertion order, holding each span's mutable attributes), the
  three scheduling classes \<open>absent\<close>, \<open>scheduling\<close> and \<open>working\<close>, and the
  reverse indexes by schema, by table and by node, all holding dispatcher ids.
\<close>

record ReplicationDB =
  allTasks :: "SpanReplication list"
  absent :: "DispatcherID list"
  scheduling :: "DispatcherID list"
  working :: "DispatcherID list"
  schemaTasks :: "int \<Rightarrow> DispatcherID list"
  tableTasks :: "int \<Rightarrow> DispatcherID list"
  nodeTasks :: "NodeID \<Rightarrow> DispatcherID list"

text \<open>
  Modelled from the spec: the empty DB, the lookup by id and through the indexes, and
  the sizes. \<open>GetScheduleSate\<close> (the name the test calls) returns up to
  \<open>limit\<close> absent spans.
\<close>

definition NewReplicaSetDB :: ReplicationDB where
  "NewReplicaSetDB =
     \<lparr>allTasks = [], absent = [], scheduling = [], working = [],
      schemaTasks = (\<lambda>_. []), tableTasks = (\<lambda>_. []), nodeTasks = (\<lambda>_. [])\<rparr>"

definition GetTaskByID :: "ReplicationDB \<Rightarrow> DispatcherID \<Rightarrow> SpanReplication option" where
  "GetTaskByID db i = find (\<lambda>s. ID s = i) (allTasks db)"

definition GetAbsentSize :: "ReplicationDB \<Rightarrow> nat" where
  "GetAbsentSize db = length (absent db)"

definition spansOf :: "ReplicationDB \<Rightarrow> DispatcherID list \<Rightarrow> SpanReplication list" where
  "spansOf db ids = filter (\<lambda>s. ID s \<in> set ids) (allTasks db)"

definition GetTasksBySchemaID :: "ReplicationDB \<Rightarrow> int \<Rightarrow> SpanReplication list" where
  "GetTasksBySchemaID db s = spansOf db (schemaTasks db s)"

definition GetTasksByTableIDs :: "ReplicationDB \<Rightarrow> int list \<Rightarrow> SpanReplication list" where
  "GetTasksByTableIDs db ts = spansOf db (concat (map (tableTasks db) ts))"

definition GetTaskByNodeID :: "ReplicationDB \<Rightarrow> NodeID \<Rightarrow> SpanReplication list" where
  "GetTaskByNodeID db n = spansOf db (nodeTasks db n)"

definition GetTaskSizePerNode :: "ReplicationDB \<Rightarrow> NodeID \<Rightarrow> nat" where
  "GetTaskSizePerNode db n = length (nodeTasks db n)"

definition GetScheduleSate :: "ReplicationDB \<Rightarrow> nat \<Rightarrow> SpanReplication list" where
  "GetScheduleSate db limit = take limit (spansOf db (absent db))"

definition removeIDs :: "DispatcherID list \<Rightarrow> DispatcherID list \<Rightarrow> DispatcherID list" where
  "removeIDs ids xs = filter (\<lambda>i. i \<notin> set ids) xs"

definition addID :: "DispatcherID \<Rightarrow> DispatcherID list \<Rightarrow> DispatcherID list" where
  "addID i xs = (if i \<in> set xs then xs else xs @ [i])"

definition updateSpan :: "DispatcherID \<Rightarrow> (SpanReplication \<Rightarrow> SpanReplication)
    \<Rightarrow> SpanReplication list \<Rightarrow> SpanReplication list" where
  "updateSpan i f spans = map (\<lambda>s. if ID s = i then f s else s) spans"

text \<open>Modelled from the spec: \<open>AddAbsentReplicaSet(span)\<close> inserts with state Absent.\<close>

definition AddAbsentReplicaSet :: "ReplicationDB \<Rightarrow> SpanReplication \<Rightarrow> ReplicationDB" where
  "AddAbsentReplicaSet db sp =
     db\<lparr>allTasks := allTasks db @ [sp],
        absent := addID (ID sp) (absent db),
        schemaTasks := (schemaTasks db)
          (schemaID sp := addID (ID sp) (schemaTasks db (schemaID sp))),
        tableTasks := (tableTasks db)
          (TableID (Span sp) := addID (ID sp) (tableTasks db (TableID (Span sp))))\<rparr>"

text \<open>
  Modelled from the spec: \<open>BindSpanToNode(oldNode, newNode, span)\<close> moves the span
  between node indexes and sets it scheduling; \<open>MarkSpanReplicating\<close> takes it from
  scheduling to working; \<open>MarkSpanAbsent\<close> takes it from working or scheduling to
  absent and clears the node id.
\<close>

definition BindSpanToNode :: "ReplicationDB \<Rightarrow> NodeID \<Rightarrow> NodeID \<Rightarrow> SpanReplication
    \<Rightarrow> ReplicationDB" where
  "BindSpanToNode db old new sp =
     (let nt = (nodeTasks db)(old := removeIDs [ID sp] (nodeTasks db old)) in
      db\<lparr>allTasks := updateSpan (ID sp) (\<lambda>s. s\<lparr>nodeID := new\<rparr>) (allTasks db),
         absent := removeIDs [ID sp] (absent db),
         working := removeIDs [ID sp] (working db),
         scheduling := addID (ID sp) (scheduling db),
         nodeTasks := nt(new := addID (ID sp) (nt new))\<rparr>)"

definition MarkSpanReplicating :: "ReplicationDB \<Rightarrow> SpanReplication \<Rightarrow> ReplicationDB" where
  "MarkSpanReplicating db sp =
     db\<lparr>scheduling := removeIDs [ID sp] (scheduling db),
        working := addID (ID sp) (working db)\<rparr>"

definition MarkSpanAbsent :: "ReplicationDB \<Rightarrow> SpanReplication \<Rightarrow> ReplicationDB" where
  "MarkSpanAbsent db sp =
     db\<lparr>allTasks := updateSpan (ID sp) (\<lambda>s. s\<lparr>nodeID := []\<rparr>) (allTasks db),
        scheduling := removeIDs [ID sp] (scheduling db),
        working := removeIDs [ID sp] (working db),
        absent := addID (ID sp) (absent db),
        nodeTasks := (\<lambda>n. removeIDs [ID sp] (nodeTasks db n))\<rparr>"

text \<open>
  Modelled from the spec: \<open>TryRemoveAll\<close>, \<open>TryRemoveBySchemaID\<close> and
  \<open>TryRemoveByTableIDs\<close> remove the spans from all indexes and return the removed
  ones, for the caller to attach remove operators to.
\<close>

definition removeFromIndexes :: "ReplicationDB \<Rightarrow> DispatcherID list \<Rightarrow> ReplicationDB" where
  "removeFromIndexes db ids =
     \<lparr>allTasks = filter (\<lambda>s. ID s \<notin> set ids) (allTasks db),
      absent = removeIDs ids (absent db),
      scheduling = removeIDs ids (scheduling db),
      working = removeIDs ids (working db),
      schemaTasks = (\<lambda>k. removeIDs ids (schemaTasks db k)),
      tableTasks = (\<lambda>k. removeIDs ids (tableTasks db k)),
      nodeTasks = (\<lambda>k. removeIDs ids (nodeTasks db k))\<rparr>"

definition tryRemove :: "ReplicationDB \<Rightarrow> SpanReplication list
    \<Rightarrow> SpanReplication list \<times> ReplicationDB" where
  "tryRemove db removed = (removed, removeFromIndexes db (map ID removed))"

definition TryRemoveAll :: "ReplicationDB \<Rightarrow> SpanReplication list \<times> ReplicationDB" where
  "TryRemoveAll db = tryRemove db (allTasks db)"

definition TryRemoveBySchemaID :: "ReplicationDB \<Rightarrow> int
    \<Rightarrow> SpanReplication list \<times> ReplicationDB" where
  "TryRemoveBySchemaID db s = tryRemove db (GetTasksBySchemaID db s)"

definition TryRemoveByTableIDs :: "ReplicationDB \<Rightarrow> int list
    \<Rightarrow> SpanReplication list \<times> ReplicationDB" where
  "TryRemoveByTableIDs db ts = tryRemove db (GetTasksByTableIDs db ts)"

text \<open>
  Modelled from the spec: \<open>UpdateSchemaID(tableID, newSchemaID)\<close> reindexes; every
  span of the table leaves the index of its old schema, gets the new schema id and
  enters the index of the new schema.
\<close>

definition reindexSpan :: "int \<Rightarrow> ReplicationDB \<Rightarrow> SpanReplication \<Rightarrow> ReplicationDB" where
  "reindexSpan newSchemaID db sp =
     (let st = (schemaTasks db)
                 (schemaID sp := removeIDs [ID sp] (schemaTasks db (schemaID sp))) in
      db\<lparr>allTasks := updateSpan (ID sp) (\<lambda>s. s\<lparr>schemaID := newSchemaID\<rparr>) (allTasks db),
         schemaTasks := st(newSchemaID := addID (ID sp) (st newSchemaID))\<rparr>)"

definition UpdateSchemaID :: "ReplicationDB \<Rightarrow> int \<Rightarrow> int \<Rightarrow> ReplicationDB" where
  "UpdateSchemaID db tid newSchemaID =
     foldl (reindexSpan newSchemaID) db (GetTasksByTableIDs db [tid])"

section \<open>Operator controller\<close>

text \<open>
  The operator implementations (\<open>add\<close>, \<open>remove\<close>, \<open>move\<close>, \<open>split\<close>) are not
  part of the sources at hand; the controller only uses their interface. An operator is
  modelled by the dispatcher id that \<open>ID()\<close> returns and its kind. What
  \<open>IsFinished()\<close> answers is a parameter of the functions that ask, and the calls
  the controller makes on operators (\<open>Start\<close>, \<open>PostFinish\<close>, \<open>OnTaskRemoved\<close>)
  are recorded, in order, in the field \<open>calls\<close>. Time is in milliseconds.
\<close>

datatype OperatorKind =
  AddDispatcherOperator | RemoveDispatcherOperator | MoveDispatcherOperator | SplitDispatcherOperator

record Operator =
  opID :: DispatcherID
  opKind :: OperatorKind

datatype OperatorCall = Start Operator | PostFinish Operator | OnTaskRemoved Operator

record operatorWithTime =
  itemOp :: Operator
  itemTime :: int

record Controller =
  changefeedID :: string
  replicationDB :: ReplicationDB
  operators :: "DispatcherID \<rightharpoonup> Operator"
  runningQueue :: "operatorWithTime list"
  batchSize :: int
  calls :: "OperatorCall list"

definition NewOperatorController :: "string \<Rightarrow> ReplicationDB \<Rightarrow> int \<Rightarrow> Controller" where
  "NewOperatorController cf db bs =
     \<lparr>changefeedID = cf, replicationDB = db, operators = Map.empty, runningQueue = [],
      batchSize = bs, calls = []\<rparr>"

text \<open>
  Modelled from the spec: the type \<open>operatorQueue\<close> behind \<open>container/heap\<close> is not
  part of the sources at hand; the spec calls it a min-heap on the next run time.
  \<open>heapPush\<close> adds an item, \<open>heapPop\<close> takes out an item with the least time (the
  earliest pushed among equals).
\<close>

definition heapPush :: "operatorWithTime list \<Rightarrow> operatorWithTime \<Rightarrow> operatorWithTime list" where
  "heapPush q item = q @ [item]"

definition heapMin :: "operatorWithTime \<Rightarrow> operatorWithTime list \<Rightarrow> operatorWithTime" where
  "heapMin x xs = foldl (\<lambda>a b. if itemTime b < itemTime a then b else a) x xs"

definition heapPop :: "operatorWithTime list \<Rightarrow> (operatorWithTime \<times> operatorWithTime list) option" where
  "heapPop q = (case q of [] \<Rightarrow> None | x # xs \<Rightarrow> Some (heapMin x xs, remove1 (heapMin x xs) q))"

text \<open>
  Modelled from the spec: \<open>NewRemoveDispatcherOperator\<close> builds the remove operator
  that owns the removed span's dispatcher id.
\<close>

definition NewRemoveDispatcherOperator :: "ReplicationDB \<Rightarrow> SpanReplication \<Rightarrow> Operator" where
  "NewRemoveDispatcherOperator db replicaSet =
     \<lparr>opID = ID replicaSet, opKind = RemoveDispatcherOperator\<rparr>"

definition removeReplicaSet :: "Controller \<Rightarrow> Operator \<Rightarrow> Controller" where
  "removeReplicaSet oc op =
     (case operators oc (opID op) of
        Some old \<Rightarrow>
          oc\<lparr>operators := ((operators oc)(opID op := None))(opID op \<mapsto> op),
             calls := calls oc @ [OnTaskRemoved old]\<rparr>
      | None \<Rightarrow> oc\<lparr>operators := (operators oc)(opID op \<mapsto> op)\<rparr>)"

definition removeReplicaSets :: "Controller \<Rightarrow> SpanReplication list \<Rightarrow> Controller" where
  "removeReplicaSets oc removed =
     foldl (\<lambda>c replicaSet.
        removeReplicaSet c (NewRemoveDispatcherOperator (replicationDB c) replicaSet))
       oc removed"

definition RemoveAllTasks :: "Controller \<Rightarrow> Controller" where
  "RemoveAllTasks oc =
     (case TryRemoveAll (replicationDB oc) of
        (removed, db') \<Rightarrow> removeReplicaSets (oc\<lparr>replicationDB := db'\<rparr>) removed)"

definition RemoveTasksBySchemaID :: "Controller \<Rightarrow> int \<Rightarrow> Controller" where
  "RemoveTasksBySchemaID oc s =
     (case TryRemoveBySchemaID (replicationDB oc) s of
        (removed, db') \<Rightarrow> removeReplicaSets (oc\<lparr>replicationDB := db'\<rparr>) removed)"

definition RemoveTasksByTableIDs :: "Controller \<Rightarrow> int list \<Rightarrow> Controller" where
  "RemoveTasksByTableIDs oc tables =
     (case TryRemoveByTableIDs (replicationDB oc) tables of
        (removed, db') \<Rightarrow> removeReplicaSets (oc\<lparr>replicationDB := db'\<rparr>) removed)"

definition AddOperator :: "int \<Rightarrow> Controller \<Rightarrow> Operator \<Rightarrow> bool \<times> Controller" where
  "AddOperator now oc op =
     (if operators oc (opID op) \<noteq> None then (False, oc)
      else if GetTaskByID (replicationDB oc) (opID op) = None then (False, oc)
      else (True,
            oc\<lparr>operators := (operators oc)(opID op \<mapsto> op),
               calls := calls oc @ [Start op],
               runningQueue := heapPush (runningQueue oc) \<lparr>itemOp = op, itemTime = now\<rparr>\<rparr>))"

definition GetOperator :: "Controller \<Rightarrow> DispatcherID \<Rightarrow> Operator option" where
  "GetOperator oc i = operators oc i"

definition pollQueueingOperator :: "(Operator \<Rightarrow> bool) \<Rightarrow> int \<Rightarrow> Controller
    \<Rightarrow> Operator option \<times> bool \<times> Controller" where
  "pollQueueingOperator IsFinished now oc =
     (case heapPop (runningQueue oc) of
        None \<Rightarrow> (None, False, oc)
      | Some (item, rest) \<Rightarrow>
          (if IsFinished (itemOp item) then
             (None, True,
              oc\<lparr>runningQueue := rest,
                 calls := calls oc @ [PostFinish (itemOp item)],
                 operators := (operators oc)(opID (itemOp item) := None)\<rparr>)
           else if now < itemTime item then
             (None, False, oc\<lparr>runningQueue := heapPush rest item\<rparr>)
           else
             (Some (itemOp item), True,
              oc\<lparr>runningQueue := heapPush rest (item\<lparr>itemTime := now + 500\<rparr>)\<rparr>)))"

subsection \<open>The operator map\<close>

text \<open>
  \<open>operatorSingleton\<close>: every operator in the map is stored under its own dispatcher
  id, so the operators that exist for a dispatcher id (\<open>operatorsFor\<close>) are at most
  the one found under that key. \<open>supersedes oc removed oc'\<close> describes a controller
  \<open>oc'\<close> in which remove operators have taken the place of whatever operators
  \<open>oc\<close> held for the removed spans; \<open>newCalls\<close> are the calls on operators made
  in between.
\<close>

definition operatorSingleton :: "Controller \<Rightarrow> bool" where
  "operatorSingleton oc \<longleftrightarrow> (\<forall>k op. operators oc k = Some op \<longrightarrow> opID op = k)"

definition operatorsFor :: "Controller \<Rightarrow> DispatcherID \<Rightarrow> Operator set" where
  "operatorsFor oc d = {op \<in> ran (operators oc). opID op = d}"

definition newCalls :: "Controller \<Rightarrow> Controller \<Rightarrow> OperatorCall list" where
  "newCalls oc oc' = drop (length (calls oc)) (calls oc')"

definition onTaskRemovedCalls :: "Controller \<Rightarrow> SpanReplication list \<Rightarrow> OperatorCall list" where
  "onTaskRemovedCalls oc removed =
     concat (map (\<lambda>rs. case operators oc (ID rs) of None \<Rightarrow> [] | Some old \<Rightarrow> [OnTaskRemoved old])
       removed)"

definition supersedes :: "Controller \<Rightarrow> SpanReplication list \<Rightarrow> Controller \<Rightarrow> bool" where
  "supersedes oc removed oc' \<longleftrightarrow>
     (\<forall>rs\<in>set removed.
        operators oc' (ID rs) = Some (NewRemoveDispatcherOperator (replicationDB oc') rs)) \<and>
     (\<forall>k. k \<notin> ID ` set removed \<longrightarrow> operators oc' k = operators oc k) \<and>
     calls oc' = calls oc @ onTaskRemovedCalls oc removed \<and>
     (\<forall>rs\<in>set removed. \<forall>old. operators oc (ID rs) = Some old \<longrightarrow>
        OnTaskRemoved old \<in> set (newCalls oc oc')) \<and>
     (\<forall>op. PostFinish op \<notin> set (newCalls oc oc')) \<and>
     runningQueue oc' = runningQueue oc"

lemma operatorsFor_singleton:
  assumes "operatorSingleton oc"
  shows "operatorsFor oc d = (case operators oc d of None \<Rightarrow> {} | Some op \<Rightarrow> {op})"
proof (cases "operators oc d")
  case None
  have "operatorsFor oc d = {}"
  proof (rule ccontr)
    assume "operatorsFor oc d \<noteq> {}"
    then obtain op k where k: "operators oc k = Some op" "opID op = d"
      by (auto simp: operatorsFor_def ran_def)
    from assms k(1) have "opID op = k" unfolding operatorSingleton_def by blast
    with k None show False by simp
  qed
  with None show ?thesis by simp
next
  case (Some op)
  have "operatorsFor oc d = {op}"
  proof (rule set_eqI)
    fix x
    show "x \<in> operatorsFor oc d \<longleftrightarrow> x \<in> {op}"
    proof
      assume "x \<in> operatorsFor oc d"
      then obtain k where k: "operators oc k = Some x" "opID x = d"
        by (auto simp: operatorsFor_def ran_def)
      from assms k(1) have "opID x = k" unfolding operatorSingleton_def by blast
      with k Some show "x \<in> {op}" by simp
    next
      assume "x \<in> {op}"
      then have x: "x = op" by simp
      from assms Some have "opID op = d" unfolding operatorSingleton_def by blast
      with Some x show "x \<in> operatorsFor oc d"
        unfolding operatorsFor_def ran_def by blast
    qed
  qed
  with Some show ?thesis by simp
qed

lemma operatorSingleton_AddOperator:
  "operatorSingleton oc \<Longrightarrow> operatorSingleton (snd (AddOperator now oc op))"
  by (auto simp: operatorSingleton_def AddOperator_def)

lemma operatorSingleton_poll:
  "operatorSingleton oc \<Longrightarrow> operatorSingleton (snd (snd (pollQueueingOperator fin now oc)))"
  by (auto simp: operatorSingleton_def pollQueueingOperator_def split: option.splits if_splits)

lemma operatorSingleton_removeReplicaSet:
  "operatorSingleton oc \<Longrightarrow> operatorSingleton (removeReplicaSet oc op)"
  by (auto simp: operatorSingleton_def removeReplicaSet_def split: option.splits if_splits)

lemma operatorSingleton_db:
  "operatorSingleton (oc\<lparr>replicationDB := db\<rparr>) = operatorSingleton oc"
  by (simp add: operatorSingleton_def)

lemma operatorSingleton_removeReplicaSets:
  "operatorSingleton oc \<Longrightarrow> operatorSingleton (removeReplicaSets oc removed)"
  unfolding removeReplicaSets_def
  by (induction removed arbitrary: oc) (simp_all add: operatorSingleton_removeReplicaSet)

text \<open>
  C3. The new controller has the singleton property, and \<open>AddOperator\<close>,
  \<open>pollQueueingOperator\<close>, \<open>removeReplicaSet\<close> and the three bulk removals keep
  it. Under it at most one operator exists for any dispatcher id \<open>d\<close>, and
  \<open>AddOperator\<close> for an id that already has an operator returns false and changes
  nothing, so no second operator is installed.
\<close>

theorem operator_singleton_invariant:
  assumes "operatorSingleton oc"
  shows "operatorSingleton (NewOperatorController cf db bs) \<and>
         operatorSingleton (snd (AddOperator now oc op)) \<and>
         operatorSingleton (snd (snd (pollQueueingOperator fin now oc))) \<and>
         operatorSingleton (removeReplicaSet oc op) \<and>
         operatorSingleton (RemoveAllTasks oc) \<and>
         operatorSingleton (RemoveTasksBySchemaID oc s) \<and>
         operatorSingleton (RemoveTasksByTableIDs oc ts) \<and>
         finite (operatorsFor oc d) \<and> card (operatorsFor oc d) \<le> 1 \<and>
         (operators oc (opID op) \<noteq> None \<longrightarrow>
            AddOperator now oc op = (False, oc) \<and>
            operatorsFor (snd (AddOperator now oc op)) (opID op) = operatorsFor oc (opID op))"
proof -
  have init: "operatorSingleton (NewOperatorController cf db bs)"
    by (simp add: operatorSingleton_def NewOperatorController_def)
  have all: "operatorSingleton (RemoveAllTasks oc)"
    by (simp add: RemoveAllTasks_def split: prod.splits)
       (simp add: operatorSingleton_removeReplicaSets operatorSingleton_db assms)
  have bys: "operatorSingleton (RemoveTasksBySchemaID oc s)"
    by (simp add: RemoveTasksBySchemaID_def split: prod.splits)
       (simp add: operatorSingleton_removeReplicaSets operatorSingleton_db assms)
  have byt: "operatorSingleton (RemoveTasksByTableIDs oc ts)"
    by (simp add: RemoveTasksByTableIDs_def split: prod.splits)
       (simp add: operatorSingleton_removeReplicaSets operatorSingleton_db assms)
  have fin: "finite (operatorsFor oc d) \<and> card (operatorsFor oc d) \<le> 1"
    by (simp add: operatorsFor_singleton [OF assms] split: option.splits)
  have dup: "operators oc (opID op) \<noteq> None \<longrightarrow>
            AddOperator now oc op = (False, oc) \<and>
            operatorsFor (snd (AddOperator now oc op)) (opID op) = operatorsFor oc (opID op)"
    by (simp add: AddOperator_def)
  from init all bys byt fin dup
    operatorSingleton_AddOperator [OF assms] operatorSingleton_poll [OF assms]
    operatorSingleton_removeReplicaSet [OF assms]
  show ?thesis by blast
qed

lemma GetTaskByID_None_iff:
  "GetTaskByID db i = None \<longleftrightarrow> (\<forall>s\<in>set (allTasks db). ID s \<noteq> i)"
  by (auto simp: GetTaskByID_def find_None_iff)

text \<open>
  C5. \<open>AddOperator op\<close> returns false and leaves the controller as it is when an
  operator with the same id exists or when the replication DB has no span with that id.
  Otherwise it returns true, the operator is in the map under its id (other keys are
  untouched), \<open>Start\<close> is the one new call, and the operator is pushed on the running
  queue with the current time.
\<close>

theorem AddOperator_rejects_or_installs:
  "(operators oc (opID op) \<noteq> None \<or> (\<forall>s\<in>set (allTasks (replicationDB oc)). ID s \<noteq> opID op)
      \<longrightarrow> AddOperator now oc op = (False, oc)) \<and>
   (operators oc (opID op) = None \<and> (\<exists>s\<in>set (allTasks (replicationDB oc)). ID s = opID op)
      \<longrightarrow> (\<exists>oc'. AddOperator now oc op = (True, oc') \<and>
             operators oc' (opID op) = Some op \<and>
             (\<forall>k. k \<noteq> opID op \<longrightarrow> operators oc' k = operators oc k) \<and>
             calls oc' = calls oc @ [Start op] \<and>
             runningQueue oc' = heapPush (runningQueue oc) \<lparr>itemOp = op, itemTime = now\<rparr> \<and>
             \<lparr>itemOp = op, itemTime = now\<rparr> \<in> set (runningQueue oc') \<and>
             replicationDB oc' = replicationDB oc \<and> batchSize oc' = batchSize oc \<and>
             changefeedID oc' = changefeedID oc))"
proof -
  have none: "GetTaskByID (replicationDB oc) (opID op) = None \<longleftrightarrow>
      (\<forall>s\<in>set (allTasks (replicationDB oc)). ID s \<noteq> opID op)"
    by (rule GetTaskByID_None_iff)
  show ?thesis
  proof (cases "operators oc (opID op) \<noteq> None \<or>
      (\<forall>s\<in>set (allTasks (replicationDB oc)). ID s \<noteq> opID op)")
    case True
    then have "AddOperator now oc op = (False, oc)"
      using none by (auto simp: AddOperator_def)
    with True show ?thesis by auto
  next
    case False
    then have "operators oc (opID op) = None"
      "GetTaskByID (replicationDB oc) (opID op) \<noteq> None"
      using none by auto
    then show ?thesis
      using False by (simp add: AddOperator_def heapPush_def)
  qed
qed

lemma removeReplicaSet_step:
  "operators (removeReplicaSet oc op) = (operators oc)(opID op \<mapsto> op)"
  "calls (removeReplicaSet oc op) =
     calls oc @ (case operators oc (opID op) of None \<Rightarrow> [] | Some old \<Rightarrow> [OnTaskRemoved old])"
  "runningQueue (removeReplicaSet oc op) = runningQueue oc"
  "replicationDB (removeReplicaSet oc op) = replicationDB oc"
  by (simp_all add: removeReplicaSet_def split: option.splits)

lemma removeReplicaSets_Cons:
  "removeReplicaSets oc (rs # rest) =
     removeReplicaSets (removeReplicaSet oc (NewRemoveDispatcherOperator (replicationDB oc) rs)) rest"
  by (simp add: removeReplicaSets_def)

lemma onTaskRemovedCalls_cong:
  assumes "\<And>rs. rs \<in> set removed \<Longrightarrow> operators oc1 (ID rs) = operators oc (ID rs)"
  shows "onTaskRemovedCalls oc1 removed = onTaskRemovedCalls oc removed"
  unfolding onTaskRemovedCalls_def
  by (rule arg_cong [where f = concat], rule map_cong [OF refl]) (simp add: assms)

lemma removeReplicaSets_effect:
  assumes "distinct (map ID removed)"
  shows "operators (removeReplicaSets oc removed) =
           (\<lambda>k. if k \<in> ID ` set removed
                then Some \<lparr>opID = k, opKind = RemoveDispatcherOperator\<rparr>
                else operators oc k) \<and>
         calls (removeReplicaSets oc removed) = calls oc @ onTaskRemovedCalls oc removed \<and>
         runningQueue (removeReplicaSets oc removed) = runningQueue oc \<and>
         replicationDB (removeReplicaSets oc removed) = replicationDB oc"
  using assms
proof (induction removed arbitrary: oc)
  case Nil
  show ?case by (simp add: removeReplicaSets_def onTaskRemovedCalls_def)
next
  case (Cons rs rest)
  define oc1 where
    "oc1 = removeReplicaSet oc (NewRemoveDispatcherOperator (replicationDB oc) rs)"
  have d: "distinct (map ID rest)" and fresh: "ID rs \<notin> ID ` set rest"
    using Cons.prems by simp_all
  have ops1: "operators oc1 =
      (operators oc)(ID rs \<mapsto> \<lparr>opID = ID rs, opKind = RemoveDispatcherOperator\<rparr>)"
    by (simp add: oc1_def removeReplicaSet_step NewRemoveDispatcherOperator_def)
  have calls1: "calls oc1 = calls oc @
      (case operators oc (ID rs) of None \<Rightarrow> [] | Some old \<Rightarrow> [OnTaskRemoved old])"
    by (simp add: oc1_def removeReplicaSet_step NewRemoveDispatcherOperator_def)
  have rest1: "runningQueue oc1 = runningQueue oc" "replicationDB oc1 = replicationDB oc"
    by (simp_all add: oc1_def removeReplicaSet_step)
  have same: "onTaskRemovedCalls oc1 rest = onTaskRemovedCalls oc rest"
  proof (rule onTaskRemovedCalls_cong)
    fix r assume "r \<in> set rest"
    then have "ID r \<in> ID ` set rest" by (rule imageI)
    with fresh have "ID r \<noteq> ID rs" by metis
    then show "operators oc1 (ID r) = operators oc (ID r)" by (simp add: ops1)
  qed
  have split: "onTaskRemovedCalls oc (rs # rest) =
      (case operators oc (ID rs) of None \<Rightarrow> [] | Some old \<Rightarrow> [OnTaskRemoved old]) @
      onTaskRemovedCalls oc rest"
    by (simp add: onTaskRemovedCalls_def)
  note IH = Cons.IH [OF d, of oc1]
  have eq: "removeReplicaSets oc (rs # rest) = removeReplicaSets oc1 rest"
    by (simp add: removeReplicaSets_Cons oc1_def)
  have "operators (removeReplicaSets oc1 rest) =
           (\<lambda>k. if k \<in> ID ` set (rs # rest)
                then Some \<lparr>opID = k, opKind = RemoveDispatcherOperator\<rparr>
                else operators oc k)"
    using IH by (auto simp: ops1 fun_eq_iff)
  moreover have "calls (removeReplicaSets oc1 rest) =
      calls oc @ onTaskRemovedCalls oc (rs # rest)"
    using IH by (simp add: calls1 same split)
  ultimately show ?case
    using IH rest1 unfolding eq by simp
qed

lemma onTaskRemovedCalls_set:
  "set (onTaskRemovedCalls oc removed) =
     {OnTaskRemoved old | old rs. rs \<in> set removed \<and> operators oc (ID rs) = Some old}"
  by (auto simp: onTaskRemovedCalls_def split: option.splits)

lemma supersedes_removeReplicaSets:
  assumes "distinct (map ID removed)"
  shows "supersedes oc removed (removeReplicaSets (oc\<lparr>replicationDB := db'\<rparr>) removed)"
proof -
  define oc0 where "oc0 = oc\<lparr>replicationDB := db'\<rparr>"
  define oc' where "oc' = removeReplicaSets oc0 removed"
  note e = removeReplicaSets_effect [OF assms, of oc0, folded oc'_def]
  have o0: "operators oc0 = operators oc" "calls oc0 = calls oc"
    "runningQueue oc0 = runningQueue oc"
    by (simp_all add: oc0_def)
  have otr: "onTaskRemovedCalls oc0 removed = onTaskRemovedCalls oc removed"
    by (rule onTaskRemovedCalls_cong) (simp add: o0)
  have c: "calls oc' = calls oc @ onTaskRemovedCalls oc removed"
    using e by (simp add: o0 otr)
  then have nc: "newCalls oc oc' = onTaskRemovedCalls oc removed"
    by (simp add: newCalls_def)
  have 1: "\<forall>rs\<in>set removed.
        operators oc' (ID rs) = Some (NewRemoveDispatcherOperator (replicationDB oc') rs)"
    using e by (simp add: NewRemoveDispatcherOperator_def)
  have 2: "\<forall>k. k \<notin> ID ` set removed \<longrightarrow> operators oc' k = operators oc k"
    using e by (simp add: o0)
  have 4: "\<forall>rs\<in>set removed. \<forall>old. operators oc (ID rs) = Some old \<longrightarrow>
        OnTaskRemoved old \<in> set (newCalls oc oc')"
    unfolding nc onTaskRemovedCalls_set by blast
  have 5: "\<forall>op. PostFinish op \<notin> set (newCalls oc oc')"
    unfolding nc onTaskRemovedCalls_set by blast
  have 6: "runningQueue oc' = runningQueue oc" using e by (simp add: o0)
  from 1 2 c 4 5 6 show ?thesis
    unfolding supersedes_def oc'_def oc0_def by blast
qed

lemma distinct_spansOf:
  "distinct (map ID (allTasks db)) \<Longrightarrow> distinct (map ID (spansOf db ids))"
  by (simp add: spansOf_def distinct_map_filter)

text \<open>
  What a bulk removal does by itself, for each of \<open>RemoveAllTasks\<close>,
  \<open>RemoveTasksBySchemaID\<close> and \<open>RemoveTasksByTableIDs\<close>, on a replication DB whose
  spans have distinct ids: every removed span's id maps to the new remove operator
  afterwards; the calls made on operators are exactly one \<open>OnTaskRemoved\<close> for each
  operator that was replaced; operators of other ids are untouched, and so is the
  running queue, which therefore still holds the replaced operators.
\<close>

theorem remove_operator_supersedes:
  assumes "distinct (map ID (allTasks (replicationDB oc)))"
  shows "supersedes oc (fst (TryRemoveAll (replicationDB oc))) (RemoveAllTasks oc) \<and>
         supersedes oc (fst (TryRemoveBySchemaID (replicationDB oc) s))
           (RemoveTasksBySchemaID oc s) \<and>
         supersedes oc (fst (TryRemoveByTableIDs (replicationDB oc) ts))
           (RemoveTasksByTableIDs oc ts)"
proof -
  have "supersedes oc (fst (TryRemoveAll (replicationDB oc))) (RemoveAllTasks oc)"
    using supersedes_removeReplicaSets [OF assms]
    by (simp add: RemoveAllTasks_def TryRemoveAll_def tryRemove_def)
  moreover have "supersedes oc (fst (TryRemoveBySchemaID (replicationDB oc) s))
           (RemoveTasksBySchemaID oc s)"
    using supersedes_removeReplicaSets [OF distinct_spansOf [OF assms]]
    by (simp add: RemoveTasksBySchemaID_def TryRemoveBySchemaID_def tryRemove_def
        GetTasksBySchemaID_def)
  moreover have "supersedes oc (fst (TryRemoveByTableIDs (replicationDB oc) ts))
           (RemoveTasksByTableIDs oc ts)"
    using supersedes_removeReplicaSets [OF distinct_spansOf [OF assms]]
    by (simp add: RemoveTasksByTableIDs_def TryRemoveByTableIDs_def tryRemove_def
        GetTasksByTableIDs_def)
  ultimately show ?thesis by blast
qed


section \<open>Maintainer controller and barrier events\<close>

datatype InfluenceType = InfluenceType_All | InfluenceType_DB | InfluenceType_Normal

datatype Action = Action_Write | Action_Pass

record InfluencedTables =
  itInfluenceType :: InfluenceType
  itTableIDs :: "int list"
  itSchemaID :: int

record Table =
  tblTableID :: int
  tblSchemaID :: int

record SchemaIDChange =
  scTableID :: int
  scOldSchemaID :: int
  scNewSchemaID :: int

record State =
  IsBlocked :: bool
  BlockTs :: uint64
  BlockTables :: "InfluencedTables option"
  NeedDroppedTables :: "InfluencedTables option"
  NeedAddedTables :: "Table list"
  UpdatedSchemas :: "SchemaIDChange list"

record DispatcherAction =
  daAction :: Action
  daCommitTs :: uint64

record InfluencedDispatchers =
  idInfluenceType :: InfluenceType
  idDispatcherIDs :: "DispatcherID list"
  idSchemaID :: int
  excludeDispatcherId :: "DispatcherID option"

record DispatcherStatus =
  influencedDispatchers :: InfluencedDispatchers
  action :: "DispatcherAction option"
  ack :: "uint64 option"

record HeartBeatResponse =
  hbChangefeedID :: string
  dispatcherStatuses :: "DispatcherStatus list"

text \<open>
  Modelled from the spec: the maintainer's \<open>Controller\<close> (only its test is part of the
  sources at hand). It owns the operator controller, which holds the replication DB.
  \<open>AddNewTable\<close> allocates a new \<open>SpanReplication\<close> for the table and inserts it
  absent. The real dispatcher id is drawn at random; the model draws it from a counter,
  starting at 1, so that a run can be replayed, and leaves the key range of the span
  empty.
\<close>

record MaintainerController =
  mcChangefeedID :: string
  operatorController :: Controller
  nextDispatcherID :: nat

definition NewController :: "string \<Rightarrow> uint64 \<Rightarrow> int \<Rightarrow> MaintainerController" where
  "NewController cf startCheckpointTs bs =
     \<lparr>mcChangefeedID = cf,
      operatorController = NewOperatorController cf NewReplicaSetDB bs,
      nextDispatcherID = 1\<rparr>"

definition NewDispatcherID :: "nat \<Rightarrow> DispatcherID" where
  "NewDispatcherID n = (0, of_nat n)"

definition mcDB :: "MaintainerController \<Rightarrow> ReplicationDB" where
  "mcDB c = replicationDB (operatorController c)"

definition withDB :: "MaintainerController \<Rightarrow> ReplicationDB \<Rightarrow> MaintainerController" where
  "withDB c db = c\<lparr>operatorController := (operatorController c)\<lparr>replicationDB := db\<rparr>\<rparr>"

definition AddNewTable :: "MaintainerController \<Rightarrow> Table \<Rightarrow> uint64 \<Rightarrow> MaintainerController" where
  "AddNewTable c table startTs =
     (withDB c
        (AddAbsentReplicaSet (mcDB c)
           \<lparr>ID = NewDispatcherID (nextDispatcherID c),
            Span = \<lparr>TableID = tblTableID table, StartKey = [], EndKey = []\<rparr>,
            ChangefeedID = mcChangefeedID c,
            schemaID = tblSchemaID table,
            nodeID = [],
            status = Absent,
            checkpointTs = startTs\<rparr>))
       \<lparr>nextDispatcherID := nextDispatcherID c + 1\<rparr>"

text \<open>
  Modelled from the spec: a block event holds the influenced dispatchers, the tables to
  drop and to add, the schema id changes, the chosen writer and the flags
  \<open>selected\<close>, \<open>writerDispatcherAdvanced\<close> and \<open>lastResendTime\<close> (milliseconds;
  0 is the zero time).
\<close>

record BarrierEvent =
  cfID :: string
  commitTs :: uint64
  blockedDispatchers :: "InfluencedTables option"
  dropDispatchers :: "InfluencedTables option"
  newTables :: "Table list"
  schemaIDChange :: "SchemaIDChange list"
  writerDispatcher :: DispatcherID
  selected :: bool
  writerDispatcherAdvanced :: bool
  lastResendTime :: int

definition NewBlockEvent :: "string \<Rightarrow> State \<Rightarrow> BarrierEvent" where
  "NewBlockEvent cf st =
     \<lparr>cfID = cf, commitTs = BlockTs st, blockedDispatchers = BlockTables st,
      dropDispatchers = NeedDroppedTables st, newTables = NeedAddedTables st,
      schemaIDChange = UpdatedSchemas st, writerDispatcher = (0, 0), selected = False,
      writerDispatcherAdvanced = False, lastResendTime = 0\<rparr>"

text \<open>
  Modelled from the spec (barrier coordinator, phase 2, step 1): structural changes are
  applied in the order drop, add, update. Dropping goes through the operator
  controller's \<open>RemoveAllTasks\<close>, \<open>RemoveTasksBySchemaID\<close> and
  \<open>RemoveTasksByTableIDs\<close>, which attach a remove operator to every removed span.
\<close>

definition dropTables :: "MaintainerController \<Rightarrow> InfluencedTables \<Rightarrow> MaintainerController" where
  "dropTables c d =
     c\<lparr>operatorController :=
        (case itInfluenceType d of
           InfluenceType_DB \<Rightarrow> RemoveTasksBySchemaID (operatorController c) (itSchemaID d)
         | InfluenceType_Normal \<Rightarrow> RemoveTasksByTableIDs (operatorController c) (itTableIDs d)
         | InfluenceType_All \<Rightarrow> RemoveAllTasks (operatorController c))\<rparr>"

definition scheduleBlockEvent :: "BarrierEvent \<Rightarrow> MaintainerController \<Rightarrow> MaintainerController" where
  "scheduleBlockEvent be c =
     (let c1 = (case dropDispatchers be of None \<Rightarrow> c | Some d \<Rightarrow> dropTables c d);
          c2 = foldl (\<lambda>c' t. AddNewTable c' t (commitTs be)) c1 (newTables be)
      in foldl (\<lambda>c' ch. withDB c' (UpdateSchemaID (mcDB c') (scTableID ch) (scNewSchemaID ch)))
           c2 (schemaIDChange be))"

text \<open>
  Modelled from the spec (resend policy). No resend while the event is not selected or
  while the last resend is less than 500 ms ago. Otherwise the write action goes to the
  writer until it has advanced, and after that the pass action goes to the other
  influenced dispatchers, in one \<open>HeartBeatResponse\<close> with one \<open>DispatcherStatus\<close>
  that carries the event's own influence type; dispatcher ids are listed for the
  \<open>Normal\<close> type only, the schema id is set for \<open>DB\<close> only and the writer is the
  excluded dispatcher for \<open>DB\<close> and \<open>All\<close>. A message is the response it carries;
  the spec does not say to which node it is routed.
\<close>

definition resendWindow :: int where
  "resendWindow = 500"

definition newWriterActionMessage :: "BarrierEvent \<Rightarrow> HeartBeatResponse" where
  "newWriterActionMessage be =
     \<lparr>hbChangefeedID = cfID be,
      dispatcherStatuses =
        [\<lparr>influencedDispatchers =
            \<lparr>idInfluenceType = InfluenceType_Normal, idDispatcherIDs = [writerDispatcher be],
             idSchemaID = 0, excludeDispatcherId = None\<rparr>,
          action = Some \<lparr>daAction = Action_Write, daCommitTs = commitTs be\<rparr>,
          ack = None\<rparr>]\<rparr>"

definition passInfluence :: "BarrierEvent \<Rightarrow> ReplicationDB \<Rightarrow> InfluencedTables
    \<Rightarrow> InfluencedDispatchers" where
  "passInfluence be db bt =
     (case itInfluenceType bt of
        InfluenceType_DB \<Rightarrow>
          \<lparr>idInfluenceType = InfluenceType_DB, idDispatcherIDs = [],
           idSchemaID = itSchemaID bt, excludeDispatcherId = Some (writerDispatcher be)\<rparr>
      | InfluenceType_All \<Rightarrow>
          \<lparr>idInfluenceType = InfluenceType_All, idDispatcherIDs = [],
           idSchemaID = 0, excludeDispatcherId = Some (writerDispatcher be)\<rparr>
      | InfluenceType_Normal \<Rightarrow>
          \<lparr>idInfluenceType = InfluenceType_Normal,
           idDispatcherIDs =
             filter (\<lambda>i. i \<noteq> writerDispatcher be)
               (map ID (GetTasksByTableIDs db (itTableIDs bt))),
           idSchemaID = 0, excludeDispatcherId = None\<rparr>)"

definition sendPassAction :: "BarrierEvent \<Rightarrow> ReplicationDB \<Rightarrow> HeartBeatResponse list" where
  "sendPassAction be db =
     (case blockedDispatchers be of
        None \<Rightarrow> []
      | Some bt \<Rightarrow>
          [\<lparr>hbChangefeedID = cfID be,
            dispatcherStatuses =
              [\<lparr>influencedDispatchers = passInfluence be db bt,
                action = Some \<lparr>daAction = Action_Pass, daCommitTs = commitTs be\<rparr>,
                ack = None\<rparr>]\<rparr>])"

definition resend :: "int \<Rightarrow> BarrierEvent \<Rightarrow> ReplicationDB
    \<Rightarrow> HeartBeatResponse list \<times> BarrierEvent" where
  "resend now be db =
     (if \<not> selected be then ([], be)
      else if now - lastResendTime be < resendWindow then ([], be)
      else if \<not> writerDispatcherAdvanced be
      then ([newWriterActionMessage be], be\<lparr>lastResendTime := now\<rparr>)
      else (sendPassAction be db, be\<lparr>lastResendTime := now\<rparr>))"

subsection \<open>The scenarios of the barrier tests\<close>

definition table11 :: MaintainerController where
  "table11 = AddNewTable (NewController ''test'' 1 1000) \<lparr>tblTableID = 1, tblSchemaID = 1\<rparr> 1"

definition dropAllAddTwo :: BarrierEvent where
  "dropAllAddTwo = NewBlockEvent ''test''
     \<lparr>IsBlocked = True, BlockTs = 10, BlockTables = None,
      NeedDroppedTables =
        Some \<lparr>itInfluenceType = InfluenceType_All, itTableIDs = [], itSchemaID = 0\<rparr>,
      NeedAddedTables = [\<lparr>tblTableID = 2, tblSchemaID = 1\<rparr>, \<lparr>tblTableID = 3, tblSchemaID = 1\<rparr>],
      UpdatedSchemas = []\<rparr>"

definition dropSchemaAddOne :: BarrierEvent where
  "dropSchemaAddOne = NewBlockEvent ''test''
     \<lparr>IsBlocked = True, BlockTs = 10, BlockTables = None,
      NeedDroppedTables =
        Some \<lparr>itInfluenceType = InfluenceType_DB, itTableIDs = [], itSchemaID = 1\<rparr>,
      NeedAddedTables = [\<lparr>tblTableID = 4, tblSchemaID = 1\<rparr>],
      UpdatedSchemas = []\<rparr>"

definition updateSchema :: BarrierEvent where
  "updateSchema = NewBlockEvent ''test''
     \<lparr>IsBlocked = True, BlockTs = 10,
      BlockTables =
        Some \<lparr>itInfluenceType = InfluenceType_All, itTableIDs = [], itSchemaID = 0\<rparr>,
      NeedDroppedTables = None, NeedAddedTables = [],
      UpdatedSchemas = [\<lparr>scTableID = 1, scOldSchemaID = 1, scNewSchemaID = 2\<rparr>]\<rparr>"

definition absentTables :: "ReplicationDB \<Rightarrow> int list" where
  "absentTables db = map (\<lambda>s. TableID (Span s)) (spansOf db (absent db))"

lemmas db_defs = NewController_def NewOperatorController_def NewReplicaSetDB_def
  AddNewTable_def withDB_def mcDB_def AddAbsentReplicaSet_def NewDispatcherID_def addID_def
  removeIDs_def spansOf_def GetAbsentSize_def GetTasksBySchemaID_def GetTasksByTableIDs_def
  removeFromIndexes_def tryRemove_def TryRemoveAll_def TryRemoveBySchemaID_def
  TryRemoveByTableIDs_def UpdateSchemaID_def reindexSpan_def updateSpan_def
  RemoveAllTasks_def RemoveTasksBySchemaID_def RemoveTasksByTableIDs_def
  removeReplicaSets_def removeReplicaSet_def NewRemoveDispatcherOperator_def
  NewBlockEvent_def scheduleBlockEvent_def dropTables_def absentTables_def



subsection \<open>Structural changes of a block event\<close>

text \<open>
  Modelled from the spec (replication DB, invariant 3; barrier coordinator, influence
  resolution). \<open>indexesConsistent\<close>: spans have distinct ids, the schema and table
  indexes hold exactly the ids of the spans with that schema id and that table id, and
  absent ids belong to spans of the DB. \<open>dropMatches\<close> resolves an influence to the
  spans it names: all spans, the spans of the schema, or the spans of the listed tables;
  \<open>droppedSpans\<close> and \<open>keptSpans\<close> split the spans of the DB accordingly.
  \<open>newIDs c k\<close> are the next \<open>k\<close> dispatcher ids the controller draws, and
  \<open>freshIDs\<close> says that they differ from each other and from the ids in the DB.
\<close>

definition indexesConsistent :: "ReplicationDB \<Rightarrow> bool" where
  "indexesConsistent db \<longleftrightarrow>
     distinct (map ID (allTasks db)) \<and>
     (\<forall>k. set (schemaTasks db k) = ID ` {sp \<in> set (allTasks db). schemaID sp = k}) \<and>
     (\<forall>k. set (tableTasks db k) = ID ` {sp \<in> set (allTasks db). TableID (Span sp) = k}) \<and>
     set (absent db) \<subseteq> ID ` set (allTasks db)"

definition dropMatches :: "InfluencedTables \<Rightarrow> SpanReplication \<Rightarrow> bool" where
  "dropMatches d sp =
     (case itInfluenceType d of
        InfluenceType_All \<Rightarrow> True
      | InfluenceType_DB \<Rightarrow> schemaID sp = itSchemaID d
      | InfluenceType_Normal \<Rightarrow> TableID (Span sp) \<in> set (itTableIDs d))"

definition droppedSpans :: "BarrierEvent \<Rightarrow> ReplicationDB \<Rightarrow> SpanReplication list" where
  "droppedSpans be db =
     (case dropDispatchers be of
        None \<Rightarrow> []
      | Some d \<Rightarrow> filter (dropMatches d) (allTasks db))"

definition newIDs :: "MaintainerController \<Rightarrow> nat \<Rightarrow> DispatcherID list" where
  "newIDs c k = map NewDispatcherID [nextDispatcherID c ..< nextDispatcherID c + k]"

definition freshIDs :: "MaintainerController \<Rightarrow> nat \<Rightarrow> bool" where
  "freshIDs c k \<longleftrightarrow>
     distinct (newIDs c k) \<and> set (newIDs c k) \<inter> ID ` set (allTasks (mcDB c)) = {}"

lemma ID_inj_on:
  "distinct (map ID xs) \<Longrightarrow> inj_on ID (set xs)"
  by (simp add: distinct_map)

lemma consistent_schema_mem:
  assumes "indexesConsistent db" "sp \<in> set (allTasks db)"
  shows "ID sp \<in> set (schemaTasks db k) \<longleftrightarrow> schemaID sp = k"
proof -
  have inj: "inj_on ID (set (allTasks db))"
    using assms(1) by (simp add: indexesConsistent_def distinct_map)
  have eq: "set (schemaTasks db k) = ID ` {s \<in> set (allTasks db). schemaID s = k}"
    using assms(1) by (simp add: indexesConsistent_def)
  show ?thesis
  proof
    assume "ID sp \<in> set (schemaTasks db k)"
    then obtain s where s: "s \<in> set (allTasks db)" "schemaID s = k" "ID s = ID sp"
      unfolding eq by auto
    with inj assms(2) have "s = sp" by (auto dest: inj_onD)
    with s show "schemaID sp = k" by simp
  next
    assume "schemaID sp = k"
    with assms(2) show "ID sp \<in> set (schemaTasks db k)" unfolding eq by auto
  qed
qed

lemma consistent_table_mem:
  assumes "indexesConsistent db" "sp \<in> set (allTasks db)"
  shows "ID sp \<in> set (tableTasks db k) \<longleftrightarrow> TableID (Span sp) = k"
proof -
  have inj: "inj_on ID (set (allTasks db))"
    using assms(1) by (simp add: indexesConsistent_def distinct_map)
  have eq: "set (tableTasks db k) = ID ` {s \<in> set (allTasks db). TableID (Span s) = k}"
    using assms(1) by (simp add: indexesConsistent_def)
  show ?thesis
  proof
    assume "ID sp \<in> set (tableTasks db k)"
    then obtain s where s: "s \<in> set (allTasks db)" "TableID (Span s) = k" "ID s = ID sp"
      unfolding eq by auto
    with inj assms(2) have "s = sp" by (auto dest: inj_onD)
    with s show "TableID (Span sp) = k" by simp
  next
    assume "TableID (Span sp) = k"
    with assms(2) show "ID sp \<in> set (tableTasks db k)" unfolding eq by auto
  qed
qed

lemma GetTasksBySchemaID_consistent:
  assumes "indexesConsistent db"
  shows "GetTasksBySchemaID db k = filter (\<lambda>sp. schemaID sp = k) (allTasks db)"
  unfolding GetTasksBySchemaID_def spansOf_def
  by (rule filter_cong [OF refl]) (simp add: consistent_schema_mem [OF assms])

lemma GetTasksByTableIDs_consistent:
  assumes "indexesConsistent db"
  shows "GetTasksByTableIDs db ts = filter (\<lambda>sp. TableID (Span sp) \<in> set ts) (allTasks db)"
  unfolding GetTasksByTableIDs_def spansOf_def
  by (rule filter_cong [OF refl]) (auto simp: consistent_table_mem [OF assms])

lemma consistent_empty: "indexesConsistent NewReplicaSetDB"
  by (simp add: indexesConsistent_def NewReplicaSetDB_def)

lemma set_removeIDs: "set (removeIDs ids xs) = set xs - set ids"
  by (auto simp: removeIDs_def)

lemma set_addID: "set (addID i xs) = insert i (set xs)"
  by (auto simp: addID_def)

lemma consistent_removeFromIndexes:
  assumes "indexesConsistent db"
  shows "indexesConsistent (removeFromIndexes db ids)"
proof -
  have inj: "inj_on ID (set (allTasks db))"
    using assms by (simp add: indexesConsistent_def distinct_map)
  have d: "distinct (map ID (filter (\<lambda>s. ID s \<notin> set ids) (allTasks db)))"
    using assms by (simp add: indexesConsistent_def distinct_map_filter)
  have s: "\<And>k. set (schemaTasks db k) - set ids =
      ID ` {sp \<in> set (filter (\<lambda>s. ID s \<notin> set ids) (allTasks db)). schemaID sp = k}"
    using assms unfolding indexesConsistent_def by auto
  have t: "\<And>k. set (tableTasks db k) - set ids =
      ID ` {sp \<in> set (filter (\<lambda>s. ID s \<notin> set ids) (allTasks db)). TableID (Span sp) = k}"
    using assms unfolding indexesConsistent_def by auto
  have a: "set (absent db) - set ids \<subseteq> ID ` set (filter (\<lambda>s. ID s \<notin> set ids) (allTasks db))"
    using assms unfolding indexesConsistent_def by auto
  show ?thesis
    unfolding indexesConsistent_def
    using d s t a by (simp add: removeFromIndexes_def set_removeIDs)
qed

lemma consistent_AddAbsentReplicaSet:
  assumes "indexesConsistent db" "ID sp \<notin> ID ` set (allTasks db)"
  shows "indexesConsistent (AddAbsentReplicaSet db sp)"
proof -
  have d: "distinct (map ID (allTasks db @ [sp]))"
    using assms by (simp add: indexesConsistent_def)
  have s: "\<And>k. set (((schemaTasks db)
        (schemaID sp := addID (ID sp) (schemaTasks db (schemaID sp)))) k) =
      ID ` {s \<in> set (allTasks db @ [sp]). schemaID s = k}"
    using assms(1) unfolding indexesConsistent_def by (auto simp: set_addID)
  have t: "\<And>k. set (((tableTasks db)
        (TableID (Span sp) := addID (ID sp) (tableTasks db (TableID (Span sp))))) k) =
      ID ` {s \<in> set (allTasks db @ [sp]). TableID (Span s) = k}"
    using assms(1) unfolding indexesConsistent_def by (auto simp: set_addID)
  have a: "set (addID (ID sp) (absent db)) \<subseteq> ID ` set (allTasks db @ [sp])"
    using assms(1) unfolding indexesConsistent_def by (auto simp: set_addID)
  show ?thesis
    unfolding indexesConsistent_def
    using d s t a by (simp add: AddAbsentReplicaSet_def)
qed


definition setSchema :: "int \<Rightarrow> DispatcherID set \<Rightarrow> SpanReplication \<Rightarrow> SpanReplication" where
  "setSchema n ids sp = (if ID sp \<in> ids then sp\<lparr>schemaID := n\<rparr> else sp)"

lemma ID_setSchema [simp]: "ID (setSchema n ids sp) = ID sp"
  by (simp add: setSchema_def)

lemma Span_setSchema [simp]: "Span (setSchema n ids sp) = Span sp"
  by (simp add: setSchema_def)

lemma reindexSpan_fields:
  "absent (reindexSpan n db sp) = absent db"
  "scheduling (reindexSpan n db sp) = scheduling db"
  "working (reindexSpan n db sp) = working db"
  "tableTasks (reindexSpan n db sp) = tableTasks db"
  "nodeTasks (reindexSpan n db sp) = nodeTasks db"
  "allTasks (reindexSpan n db sp) = map (setSchema n {ID sp}) (allTasks db)"
  by (simp_all add: reindexSpan_def Let_def updateSpan_def setSchema_def)

lemma Collect_insert_not: "\<not> P x \<Longrightarrow> {s \<in> insert x A. P s} = {s \<in> A. P s}"
  by auto

lemma consistent_reindexSpan:
  assumes c: "indexesConsistent db" and m: "sp \<in> set (allTasks db)"
  shows "indexesConsistent (reindexSpan n db sp)"
proof -
  let ?db' = "reindexSpan n db sp"
  have inj: "inj_on ID (set (allTasks db))"
    using c by (simp add: indexesConsistent_def distinct_map)
  have all: "allTasks ?db' = map (setSchema n {ID sp}) (allTasks db)"
    by (rule reindexSpan_fields)
  have ids: "map ID (allTasks ?db') = map ID (allTasks db)"
    by (simp add: all o_def)
  have d: "distinct (map ID (allTasks ?db'))"
    using c by (simp add: ids indexesConsistent_def)
  have other: "\<And>s. s \<in> set (allTasks db) \<Longrightarrow> s \<noteq> sp \<Longrightarrow> ID s \<noteq> ID sp"
    using inj m by (auto dest: inj_onD)
  have set_all: "set (allTasks ?db') = insert (sp\<lparr>schemaID := n\<rparr>) (set (allTasks db) - {sp})"
  proof (rule set_eqI)
    fix x
    show "x \<in> set (allTasks ?db') \<longleftrightarrow> x \<in> insert (sp\<lparr>schemaID := n\<rparr>) (set (allTasks db) - {sp})"
    proof
      assume "x \<in> set (allTasks ?db')"
      then obtain s where s: "s \<in> set (allTasks db)" "x = setSchema n {ID sp} s"
        unfolding all by auto
      show "x \<in> insert (sp\<lparr>schemaID := n\<rparr>) (set (allTasks db) - {sp})"
      proof (cases "s = sp")
        case True
        with s show ?thesis by (simp add: setSchema_def)
      next
        case False
        with other [OF s(1)] s show ?thesis by (simp add: setSchema_def)
      qed
    next
      assume "x \<in> insert (sp\<lparr>schemaID := n\<rparr>) (set (allTasks db) - {sp})"
      then consider "x = sp\<lparr>schemaID := n\<rparr>" | "x \<in> set (allTasks db)" "x \<noteq> sp" by auto
      then show "x \<in> set (allTasks ?db')"
      proof cases
        case 1
        have "setSchema n {ID sp} sp = sp\<lparr>schemaID := n\<rparr>" by (simp add: setSchema_def)
        with m 1 show ?thesis unfolding all by force
      next
        case 2
        with other [OF 2(1)] have "setSchema n {ID sp} x = x" by (simp add: setSchema_def)
        with 2 show ?thesis unfolding all by force
      qed
    qed
  qed
  have sch0: "\<And>k. set (schemaTasks db k) = ID ` {s \<in> set (allTasks db). schemaID s = k}"
    using c by (simp add: indexesConsistent_def)
  have mem: "\<And>s k. s \<in> set (allTasks db) \<Longrightarrow> ID s \<in> set (schemaTasks db k) \<longleftrightarrow> schemaID s = k"
    by (rule consistent_schema_mem [OF c])
  have sch: "\<And>k. set (schemaTasks ?db' k) = ID ` {s \<in> set (allTasks ?db'). schemaID s = k}"
  proof -
    fix k
    have st: "set (schemaTasks ?db' k) =
        (if k = n then insert (ID sp) (set (schemaTasks db k) - {ID sp})
         else set (schemaTasks db k) - {ID sp})"
    proof -
      have a: "ID sp \<in> set (schemaTasks db k) \<Longrightarrow> k = schemaID sp"
        using mem [OF m] by simp
      show ?thesis
        using a by (auto simp: reindexSpan_def Let_def set_addID set_removeIDs)
    qed
    have rhs: "ID ` {s \<in> set (allTasks ?db'). schemaID s = k} =
        (if k = n then insert (ID sp) (ID ` {s \<in> set (allTasks db) - {sp}. schemaID s = k})
         else ID ` {s \<in> set (allTasks db) - {sp}. schemaID s = k})"
    proof -
      have "{s \<in> insert (sp\<lparr>schemaID := n\<rparr>) (set (allTasks db) - {sp}). schemaID s = k} =
          (if k = n then insert (sp\<lparr>schemaID := n\<rparr>) {s \<in> set (allTasks db) - {sp}. schemaID s = k}
           else {s \<in> set (allTasks db) - {sp}. schemaID s = k})"
      proof (cases "k = n")
        case True
        then show ?thesis by auto
      next
        case False
        have "\<not> schemaID (sp\<lparr>schemaID := n\<rparr>) = k" using False by simp
        then have "{s \<in> insert (sp\<lparr>schemaID := n\<rparr>) (set (allTasks db) - {sp}). schemaID s = k} =
            {s \<in> set (allTasks db) - {sp}. schemaID s = k}"
          by (rule Collect_insert_not)
        with False show ?thesis by simp
      qed
      then have "ID ` {s \<in> set (allTasks ?db'). schemaID s = k} =
          ID ` (if k = n then insert (sp\<lparr>schemaID := n\<rparr>) {s \<in> set (allTasks db) - {sp}. schemaID s = k}
           else {s \<in> set (allTasks db) - {sp}. schemaID s = k})"
        unfolding set_all by (rule arg_cong)
      then show ?thesis by (cases "k = n") simp_all
    qed
    have diff: "ID ` {s \<in> set (allTasks db) - {sp}. schemaID s = k} =
        set (schemaTasks db k) - {ID sp}"
    proof (rule set_eqI)
      fix i
      show "i \<in> ID ` {s \<in> set (allTasks db) - {sp}. schemaID s = k} \<longleftrightarrow>
          i \<in> set (schemaTasks db k) - {ID sp}"
      proof
        assume "i \<in> ID ` {s \<in> set (allTasks db) - {sp}. schemaID s = k}"
        then obtain x where x: "x \<in> set (allTasks db)" "x \<noteq> sp" "schemaID x = k" "i = ID x"
          by blast
        from other [OF x(1,2)] x mem [OF x(1), of k]
        show "i \<in> set (schemaTasks db k) - {ID sp}" by simp
      next
        assume "i \<in> set (schemaTasks db k) - {ID sp}"
        then have i: "i \<in> ID ` {s \<in> set (allTasks db). schemaID s = k}" "i \<noteq> ID sp"
          unfolding sch0 by simp_all
        then obtain x where x: "x \<in> set (allTasks db)" "schemaID x = k" "i = ID x"
          by blast
        with i(2) have "x \<noteq> sp" by blast
        with x show "i \<in> ID ` {s \<in> set (allTasks db) - {sp}. schemaID s = k}" by blast
      qed
    qed
    show "set (schemaTasks ?db' k) = ID ` {s \<in> set (allTasks ?db'). schemaID s = k}"
      unfolding st rhs diff by simp
  qed
  have tab: "\<And>k. set (tableTasks ?db' k) = ID ` {s \<in> set (allTasks ?db'). TableID (Span s) = k}"
  proof -
    fix k
    have "ID ` {s \<in> set (allTasks ?db'). TableID (Span s) = k} =
        ID ` {s \<in> set (allTasks db). TableID (Span s) = k}"
      unfolding all by (auto simp: image_iff) (metis ID_setSchema Span_setSchema)+
    then show "set (tableTasks ?db' k) = ID ` {s \<in> set (allTasks ?db'). TableID (Span s) = k}"
      using c by (simp add: reindexSpan_fields(4) indexesConsistent_def)
  qed
  have ab: "set (absent ?db') \<subseteq> ID ` set (allTasks ?db')"
  proof -
    have "ID ` set (allTasks ?db') = ID ` set (allTasks db)"
      using ids by (metis set_map)
    then show ?thesis using c by (simp add: reindexSpan_fields(1) indexesConsistent_def)
  qed
  show ?thesis
    unfolding indexesConsistent_def using d sch tab ab by blast
qed


lemma setSchema_twice:
  "setSchema n A (setSchema n B s) = setSchema n (A \<union> B) s"
  by (simp add: setSchema_def)

lemma foldl_reindexSpan:
  assumes "indexesConsistent db" "distinct (map ID sps)" "set sps \<subseteq> set (allTasks db)"
  shows "indexesConsistent (foldl (reindexSpan n) db sps) \<and>
         allTasks (foldl (reindexSpan n) db sps) = map (setSchema n (ID ` set sps)) (allTasks db) \<and>
         absent (foldl (reindexSpan n) db sps) = absent db \<and>
         tableTasks (foldl (reindexSpan n) db sps) = tableTasks db"
  using assms
proof (induction sps arbitrary: db)
  case Nil
  then show ?case by (simp add: setSchema_def)
next
  case (Cons sp rest)
  let ?db1 = "reindexSpan n db sp"
  have m: "sp \<in> set (allTasks db)" using Cons.prems(3) by simp
  have c1: "indexesConsistent ?db1" by (rule consistent_reindexSpan [OF Cons.prems(1) m])
  have d: "distinct (map ID rest)" and fresh: "ID sp \<notin> ID ` set rest"
    using Cons.prems(2) by simp_all
  have sub: "set rest \<subseteq> set (allTasks ?db1)"
  proof
    fix r assume r: "r \<in> set rest"
    then have "ID r \<in> ID ` set rest" by (rule imageI)
    with fresh have "ID r \<noteq> ID sp" by metis
    then have "setSchema n {ID sp} r = r" by (simp add: setSchema_def)
    moreover have "r \<in> set (allTasks db)" using r Cons.prems(3) by auto
    ultimately show "r \<in> set (allTasks ?db1)"
      unfolding reindexSpan_fields(6) by force
  qed
  note IH = Cons.IH [OF c1 d sub]
  have "map (setSchema n (ID ` set rest)) (allTasks ?db1) =
      map (setSchema n (ID ` set (sp # rest))) (allTasks db)"
    by (simp add: reindexSpan_fields(6) setSchema_twice o_def Un_commute)
  with IH show ?case by (simp add: reindexSpan_fields)
qed

lemma UpdateSchemaID_consistent:
  assumes "indexesConsistent db"
  shows "indexesConsistent (UpdateSchemaID db tid n) \<and>
         allTasks (UpdateSchemaID db tid n) =
           map (\<lambda>sp. if TableID (Span sp) = tid then sp\<lparr>schemaID := n\<rparr> else sp) (allTasks db) \<and>
         absent (UpdateSchemaID db tid n) = absent db \<and>
         tableTasks (UpdateSchemaID db tid n) = tableTasks db"
proof -
  define sps where "sps = filter (\<lambda>sp. TableID (Span sp) \<in> set [tid]) (allTasks db)"
  have g: "GetTasksByTableIDs db [tid] = sps"
    unfolding sps_def by (rule GetTasksByTableIDs_consistent [OF assms])
  have dist: "distinct (map ID (allTasks db))" using assms by (simp add: indexesConsistent_def)
  then have inj: "inj_on ID (set (allTasks db))" by (simp add: distinct_map)
  have d: "distinct (map ID sps)" unfolding sps_def using dist by (simp add: distinct_map_filter)
  have sub: "set sps \<subseteq> set (allTasks db)" unfolding sps_def by auto
  note f = foldl_reindexSpan [OF assms d sub, of n]
  have "map (setSchema n (ID ` set sps)) (allTasks db) =
      map (\<lambda>sp. if TableID (Span sp) = tid then sp\<lparr>schemaID := n\<rparr> else sp) (allTasks db)"
  proof (rule map_cong [OF refl])
    fix s assume s: "s \<in> set (allTasks db)"
    have "ID s \<in> ID ` set sps \<longleftrightarrow> TableID (Span s) = tid"
    proof
      assume "ID s \<in> ID ` set sps"
      then obtain x where x: "x \<in> set sps" "ID x = ID s" by auto
      with sub inj s have "x = s" by (auto dest: inj_onD)
      with x(1) show "TableID (Span s) = tid" by (simp add: sps_def)
    next
      assume "TableID (Span s) = tid"
      with s have "s \<in> set sps" by (simp add: sps_def)
      then show "ID s \<in> ID ` set sps" by (rule imageI)
    qed
    then show "setSchema n (ID ` set sps) s =
        (if TableID (Span s) = tid then s\<lparr>schemaID := n\<rparr> else s)"
      by (simp add: setSchema_def)
  qed
  with f show ?thesis by (simp add: UpdateSchemaID_def g)
qed

lemma replicationDB_removeReplicaSets:
  "replicationDB (removeReplicaSets oc removed) = replicationDB oc"
  unfolding removeReplicaSets_def
  by (induction removed arbitrary: oc) (simp_all add: removeReplicaSet_step)

lemma mcDB_dropTables:
  assumes "indexesConsistent (mcDB c)"
  shows "mcDB (dropTables c d) =
           removeFromIndexes (mcDB c) (map ID (filter (dropMatches d) (allTasks (mcDB c))))"
proof (cases "itInfluenceType d")
  case InfluenceType_All
  then show ?thesis
    by (simp add: mcDB_def dropTables_def RemoveAllTasks_def TryRemoveAll_def tryRemove_def
        replicationDB_removeReplicaSets dropMatches_def [abs_def])
next
  case InfluenceType_DB
  have "GetTasksBySchemaID (mcDB c) (itSchemaID d) =
      filter (dropMatches d) (allTasks (mcDB c))"
    by (simp add: GetTasksBySchemaID_consistent [OF assms] dropMatches_def [abs_def]
        InfluenceType_DB)
  then show ?thesis
    using InfluenceType_DB
    by (simp add: mcDB_def dropTables_def RemoveTasksBySchemaID_def TryRemoveBySchemaID_def
        tryRemove_def replicationDB_removeReplicaSets)
next
  case InfluenceType_Normal
  have "GetTasksByTableIDs (mcDB c) (itTableIDs d) =
      filter (dropMatches d) (allTasks (mcDB c))"
    by (simp add: GetTasksByTableIDs_consistent [OF assms] dropMatches_def [abs_def]
        InfluenceType_Normal)
  then show ?thesis
    using InfluenceType_Normal
    by (simp add: mcDB_def dropTables_def RemoveTasksByTableIDs_def TryRemoveByTableIDs_def
        tryRemove_def replicationDB_removeReplicaSets)
qed

lemma nextDispatcherID_dropTables:
  "nextDispatcherID (dropTables c d) = nextDispatcherID c"
  by (simp add: dropTables_def)


definition keptSpans :: "BarrierEvent \<Rightarrow> ReplicationDB \<Rightarrow> SpanReplication list" where
  "keptSpans be db =
     (case dropDispatchers be of
        None \<Rightarrow> allTasks db
      | Some d \<Rightarrow> filter (\<lambda>sp. \<not> dropMatches d sp) (allTasks db))"

definition newSpan :: "MaintainerController \<Rightarrow> Table \<Rightarrow> uint64 \<Rightarrow> SpanReplication" where
  "newSpan c table startTs =
     \<lparr>ID = NewDispatcherID (nextDispatcherID c),
      Span = \<lparr>TableID = tblTableID table, StartKey = [], EndKey = []\<rparr>,
      ChangefeedID = mcChangefeedID c,
      schemaID = tblSchemaID table,
      nodeID = [],
      status = Absent,
      checkpointTs = startTs\<rparr>"

lemma AddNewTable_fields:
  "mcDB (AddNewTable c t st) = AddAbsentReplicaSet (mcDB c) (newSpan c t st)"
  "nextDispatcherID (AddNewTable c t st) = Suc (nextDispatcherID c)"
  "mcChangefeedID (AddNewTable c t st) = mcChangefeedID c"
  by (simp_all add: AddNewTable_def withDB_def mcDB_def newSpan_def)

lemma newIDs_Suc:
  assumes "nextDispatcherID c1 = Suc (nextDispatcherID c)"
  shows "newIDs c (Suc k) = NewDispatcherID (nextDispatcherID c) # newIDs c1 k"
  by (simp add: newIDs_def assms upt_conv_Cons del: upt_Suc)

lemma filter_not_dropped:
  assumes "distinct (map ID xs)"
  shows "filter (\<lambda>s. ID s \<notin> set (map ID (filter P xs))) xs = filter (\<lambda>s. \<not> P s) xs"
proof (rule filter_cong [OF refl])
  fix s assume s: "s \<in> set xs"
  have inj: "inj_on ID (set xs)" using assms by (simp add: distinct_map)
  show "(ID s \<notin> set (map ID (filter P xs))) = (\<not> P s)"
  proof
    assume a: "ID s \<notin> set (map ID (filter P xs))"
    show "\<not> P s"
    proof
      assume "P s"
      with s have "s \<in> set (filter P xs)" by simp
      then have "ID s \<in> set (map ID (filter P xs))" by (simp only: set_map) (rule imageI)
      with a show False by simp
    qed
  next
    assume np: "\<not> P s"
    show "ID s \<notin> set (map ID (filter P xs))"
    proof
      assume "ID s \<in> set (map ID (filter P xs))"
      then obtain x where x: "x \<in> set xs" "P x" "ID x = ID s" by auto
      with inj s have "x = s" by (auto dest: inj_onD)
      with x np show False by simp
    qed
  qed
qed

lemma addTables_effect:
  assumes "indexesConsistent (mcDB c)" "freshIDs c (length ts)"
  shows "nextDispatcherID (foldl (\<lambda>c' t. AddNewTable c' t st) c ts) =
           nextDispatcherID c + length ts \<and>
         map ID (allTasks (mcDB (foldl (\<lambda>c' t. AddNewTable c' t st) c ts))) =
           map ID (allTasks (mcDB c)) @ newIDs c (length ts) \<and>
         map (\<lambda>s. TableID (Span s)) (allTasks (mcDB (foldl (\<lambda>c' t. AddNewTable c' t st) c ts))) =
           map (\<lambda>s. TableID (Span s)) (allTasks (mcDB c)) @ map tblTableID ts \<and>
         absent (mcDB (foldl (\<lambda>c' t. AddNewTable c' t st) c ts)) =
           absent (mcDB c) @ newIDs c (length ts) \<and>
         indexesConsistent (mcDB (foldl (\<lambda>c' t. AddNewTable c' t st) c ts))"
  using assms
proof (induction ts arbitrary: c)
  case Nil
  then show ?case by (simp add: newIDs_def)
next
  case (Cons t rest)
  let ?c1 = "AddNewTable c t st"
  let ?i = "NewDispatcherID (nextDispatcherID c)"
  have n1: "nextDispatcherID ?c1 = Suc (nextDispatcherID c)" by (rule AddNewTable_fields)
  have ids: "newIDs c (Suc (length rest)) = ?i # newIDs ?c1 (length rest)"
    by (rule newIDs_Suc [OF n1])
  from Cons.prems(2) have fr: "distinct (?i # newIDs ?c1 (length rest))"
    "set (?i # newIDs ?c1 (length rest)) \<inter> ID ` set (allTasks (mcDB c)) = {}"
    by (simp_all add: freshIDs_def ids)
  have inew: "?i \<notin> ID ` set (allTasks (mcDB c))" using fr(2) by auto
  have idsp: "ID (newSpan c t st) = ?i" by (simp add: newSpan_def)
  have c1: "indexesConsistent (mcDB ?c1)"
    unfolding AddNewTable_fields(1)
    by (rule consistent_AddAbsentReplicaSet [OF Cons.prems(1)]) (simp add: idsp inew)
  have all1: "allTasks (mcDB ?c1) = allTasks (mcDB c) @ [newSpan c t st]"
    by (simp add: AddNewTable_fields(1) AddAbsentReplicaSet_def)
  have "?i \<notin> set (absent (mcDB c))"
    using inew Cons.prems(1) unfolding indexesConsistent_def by blast
  then have abs1: "absent (mcDB ?c1) = absent (mcDB c) @ [?i]"
    by (simp add: AddNewTable_fields(1) AddAbsentReplicaSet_def idsp addID_def)
  have f1: "freshIDs ?c1 (length rest)"
    unfolding freshIDs_def using fr by (auto simp: all1 idsp)
  note IH = Cons.IH [OF c1 f1]
  have tab: "TableID (Span (newSpan c t st)) = tblTableID t" by (simp add: newSpan_def)
  from IH show ?case
    by (simp add: n1 all1 abs1 ids idsp tab del: upt_Suc)
qed

lemma updates_effect:
  assumes "indexesConsistent (mcDB c)"
  shows "nextDispatcherID
           (foldl (\<lambda>c' ch. withDB c' (UpdateSchemaID (mcDB c') (scTableID ch) (scNewSchemaID ch)))
              c chs) = nextDispatcherID c \<and>
         map ID (allTasks (mcDB
           (foldl (\<lambda>c' ch. withDB c' (UpdateSchemaID (mcDB c') (scTableID ch) (scNewSchemaID ch)))
              c chs))) = map ID (allTasks (mcDB c)) \<and>
         map (\<lambda>s. TableID (Span s)) (allTasks (mcDB
           (foldl (\<lambda>c' ch. withDB c' (UpdateSchemaID (mcDB c') (scTableID ch) (scNewSchemaID ch)))
              c chs))) = map (\<lambda>s. TableID (Span s)) (allTasks (mcDB c)) \<and>
         absent (mcDB
           (foldl (\<lambda>c' ch. withDB c' (UpdateSchemaID (mcDB c') (scTableID ch) (scNewSchemaID ch)))
              c chs)) = absent (mcDB c) \<and>
         indexesConsistent (mcDB
           (foldl (\<lambda>c' ch. withDB c' (UpdateSchemaID (mcDB c') (scTableID ch) (scNewSchemaID ch)))
              c chs))"
  using assms
proof (induction chs arbitrary: c)
  case Nil
  then show ?case by simp
next
  case (Cons ch rest)
  let ?c1 = "withDB c (UpdateSchemaID (mcDB c) (scTableID ch) (scNewSchemaID ch))"
  note u = UpdateSchemaID_consistent [OF Cons.prems, of "scTableID ch" "scNewSchemaID ch"]
  have db1: "mcDB ?c1 = UpdateSchemaID (mcDB c) (scTableID ch) (scNewSchemaID ch)"
    by (simp add: withDB_def mcDB_def)
  have c1: "indexesConsistent (mcDB ?c1)" using u by (simp add: db1)
  have n1: "nextDispatcherID ?c1 = nextDispatcherID c" by (simp add: withDB_def)
  have ids: "map ID (allTasks (mcDB ?c1)) = map ID (allTasks (mcDB c))"
    using u by (simp add: db1 o_def)
  have tabs: "map (\<lambda>s. TableID (Span s)) (allTasks (mcDB ?c1)) =
      map (\<lambda>s. TableID (Span s)) (allTasks (mcDB c))"
    using u by (simp add: db1 o_def)
  have ab: "absent (mcDB ?c1) = absent (mcDB c)" using u by (simp add: db1)
  from Cons.IH [OF c1] show ?case by (simp add: n1 ids tabs ab)
qed


lemma newIDs_cong:
  "nextDispatcherID c1 = nextDispatcherID c \<Longrightarrow> newIDs c1 k = newIDs c k"
  by (simp add: newIDs_def)

lemma removeIDs_Nil: "removeIDs [] xs = xs"
  by (simp add: removeIDs_def)

lemma scheduleBlockEvent_effect:
  assumes c: "indexesConsistent (mcDB c)" and f: "freshIDs c (length (newTables be))"
  shows "absent (mcDB (scheduleBlockEvent be c)) =
           removeIDs (map ID (droppedSpans be (mcDB c))) (absent (mcDB c)) @
           newIDs c (length (newTables be)) \<and>
         map ID (allTasks (mcDB (scheduleBlockEvent be c))) =
           map ID (keptSpans be (mcDB c)) @ newIDs c (length (newTables be)) \<and>
         map (\<lambda>s. TableID (Span s)) (allTasks (mcDB (scheduleBlockEvent be c))) =
           map (\<lambda>s. TableID (Span s)) (keptSpans be (mcDB c)) @ map tblTableID (newTables be) \<and>
         nextDispatcherID (scheduleBlockEvent be c) =
           nextDispatcherID c + length (newTables be) \<and>
         indexesConsistent (mcDB (scheduleBlockEvent be c))"
proof -
  define c1 where "c1 = (case dropDispatchers be of None \<Rightarrow> c | Some d \<Rightarrow> dropTables c d)"
  define c2 where "c2 = foldl (\<lambda>c' t. AddNewTable c' t (commitTs be)) c1 (newTables be)"
  have s: "scheduleBlockEvent be c =
      foldl (\<lambda>c' ch. withDB c' (UpdateSchemaID (mcDB c') (scTableID ch) (scNewSchemaID ch)))
        c2 (schemaIDChange be)"
    by (simp add: scheduleBlockEvent_def Let_def c1_def c2_def)
  have dist: "distinct (map ID (allTasks (mcDB c)))"
    using c by (simp add: indexesConsistent_def)
  have n1: "nextDispatcherID c1 = nextDispatcherID c"
    by (simp add: c1_def nextDispatcherID_dropTables split: option.splits)
  have db1: "mcDB c1 = (case dropDispatchers be of None \<Rightarrow> mcDB c
      | Some d \<Rightarrow> removeFromIndexes (mcDB c) (map ID (droppedSpans be (mcDB c))))"
    by (simp add: c1_def droppedSpans_def mcDB_dropTables [OF c] split: option.splits)
  have all1: "allTasks (mcDB c1) = keptSpans be (mcDB c)"
    by (simp add: db1 keptSpans_def droppedSpans_def removeFromIndexes_def
        filter_not_dropped [OF dist] del: set_map split: option.splits)
  have abs1: "absent (mcDB c1) = removeIDs (map ID (droppedSpans be (mcDB c))) (absent (mcDB c))"
    by (simp add: db1 droppedSpans_def removeFromIndexes_def removeIDs_Nil split: option.splits)
  have cons1: "indexesConsistent (mcDB c1)"
    by (simp add: db1 c consistent_removeFromIndexes split: option.splits)
  have sub: "set (allTasks (mcDB c1)) \<subseteq> set (allTasks (mcDB c))"
    by (auto simp: all1 keptSpans_def split: option.splits)
  have f1: "freshIDs c1 (length (newTables be))"
    using f sub unfolding freshIDs_def newIDs_cong [OF n1] by blast
  note a = addTables_effect [OF cons1 f1, of "commitTs be", folded c2_def]
  from a have cons2: "indexesConsistent (mcDB c2)" by blast
  note u = updates_effect [OF cons2, of "schemaIDChange be", folded s]
  from a u show ?thesis
    by (simp add: all1 abs1 n1 newIDs_cong [OF n1])
qed

text \<open>
  C1. On a consistent DB and with fresh ids for the added tables, scheduling a block
  event drops first and adds afterwards: the absent list afterwards is the old absent
  list without the dropped spans, followed by one new span for every added table, in
  order, whether or not an added table itself matches the drop; the spans of the DB are
  the kept ones followed by the new ones. When the event drops all tables, exactly the
  newly added tables are absent. In the test's run this gives 2 absent spans after
  "drop all, add tables 2 and 3" and 1 after "drop schema 1, add table 4".
\<close>

theorem scheduleBlockEvent_drops_then_adds:
  assumes "indexesConsistent (mcDB c)" and "freshIDs c (length (newTables be))"
  shows "absent (mcDB (scheduleBlockEvent be c)) =
           removeIDs (map ID (droppedSpans be (mcDB c))) (absent (mcDB c)) @
           newIDs c (length (newTables be)) \<and>
         GetAbsentSize (mcDB (scheduleBlockEvent be c)) =
           length (removeIDs (map ID (droppedSpans be (mcDB c))) (absent (mcDB c))) +
           length (newTables be) \<and>
         map ID (allTasks (mcDB (scheduleBlockEvent be c))) =
           map ID (keptSpans be (mcDB c)) @ newIDs c (length (newTables be)) \<and>
         map (\<lambda>s. TableID (Span s)) (allTasks (mcDB (scheduleBlockEvent be c))) =
           map (\<lambda>s. TableID (Span s)) (keptSpans be (mcDB c)) @ map tblTableID (newTables be) \<and>
         ((\<exists>d. dropDispatchers be = Some d \<and> itInfluenceType d = InfluenceType_All) \<longrightarrow>
            absent (mcDB (scheduleBlockEvent be c)) = newIDs c (length (newTables be)) \<and>
            GetAbsentSize (mcDB (scheduleBlockEvent be c)) = length (newTables be))"
proof -
  note e = scheduleBlockEvent_effect [OF assms]
  have len: "length (newIDs c (length (newTables be))) = length (newTables be)"
    by (simp add: newIDs_def)
  have size: "GetAbsentSize (mcDB (scheduleBlockEvent be c)) =
           length (removeIDs (map ID (droppedSpans be (mcDB c))) (absent (mcDB c))) +
           length (newTables be)"
    using e by (simp add: GetAbsentSize_def len)
  have allcase: "(\<exists>d. dropDispatchers be = Some d \<and> itInfluenceType d = InfluenceType_All) \<longrightarrow>
      removeIDs (map ID (droppedSpans be (mcDB c))) (absent (mcDB c)) = []"
  proof
    assume "\<exists>d. dropDispatchers be = Some d \<and> itInfluenceType d = InfluenceType_All"
    then obtain d where d: "dropDispatchers be = Some d" "itInfluenceType d = InfluenceType_All"
      by blast
    then have "droppedSpans be (mcDB c) = allTasks (mcDB c)"
      by (simp add: droppedSpans_def dropMatches_def [abs_def])
    moreover have "set (absent (mcDB c)) \<subseteq> ID ` set (allTasks (mcDB c))"
      using assms(1) by (simp add: indexesConsistent_def)
    ultimately show "removeIDs (map ID (droppedSpans be (mcDB c))) (absent (mcDB c)) = []"
      by (auto simp: removeIDs_def filter_empty_conv)
  qed
  from e size allcase show ?thesis by (simp add: GetAbsentSize_def len)
qed

text \<open>
  The run of the test: table 1 of schema 1, then "drop all, add 2 and 3", then "drop
  schema 1, add 4", then "drop table 4, add 5".
\<close>

lemma consistent_table11: "indexesConsistent (mcDB table11)"
  unfolding table11_def AddNewTable_fields(1)
  by (rule consistent_AddAbsentReplicaSet)
     (simp_all add: NewController_def NewOperatorController_def mcDB_def consistent_empty,
      simp add: NewReplicaSetDB_def)

definition dropTableAddOne :: BarrierEvent where
  "dropTableAddOne = NewBlockEvent ''test''
     \<lparr>IsBlocked = True, BlockTs = 10, BlockTables = None,
      NeedDroppedTables =
        Some \<lparr>itInfluenceType = InfluenceType_Normal, itTableIDs = [4], itSchemaID = 0\<rparr>,
      NeedAddedTables = [\<lparr>tblTableID = 5, tblSchemaID = 1\<rparr>],
      UpdatedSchemas = []\<rparr>"

theorem scheduleBlockEvent_drops_then_adds_witness:
  "indexesConsistent (mcDB table11) \<and> freshIDs table11 (length (newTables dropAllAddTwo)) \<and>
   GetAbsentSize (mcDB table11) = 1 \<and>
   GetAbsentSize (mcDB (scheduleBlockEvent dropAllAddTwo table11)) = 2 \<and>
   absentTables (mcDB (scheduleBlockEvent dropAllAddTwo table11)) = [2, 3] \<and>
   GetAbsentSize
     (mcDB (scheduleBlockEvent dropSchemaAddOne (scheduleBlockEvent dropAllAddTwo table11))) = 1 \<and>
   absentTables
     (mcDB (scheduleBlockEvent dropSchemaAddOne (scheduleBlockEvent dropAllAddTwo table11))) = [4] \<and>
   absentTables
     (mcDB (scheduleBlockEvent dropTableAddOne
        (scheduleBlockEvent dropSchemaAddOne (scheduleBlockEvent dropAllAddTwo table11)))) = [5]"
proof -
  have h1: "indexesConsistent (mcDB table11)" by (rule consistent_table11)
  have h2: "freshIDs table11 (length (newTables dropAllAddTwo))"
    by (simp add: freshIDs_def newIDs_def table11_def dropAllAddTwo_def db_defs upt_rec)
  have "(\<exists>d. dropDispatchers dropAllAddTwo = Some d \<and> itInfluenceType d = InfluenceType_All)"
    by (simp add: dropAllAddTwo_def NewBlockEvent_def)
  with scheduleBlockEvent_drops_then_adds [OF h1 h2]
  have "GetAbsentSize (mcDB (scheduleBlockEvent dropAllAddTwo table11)) =
      length (newTables dropAllAddTwo)" by blast
  then have s1: "GetAbsentSize (mcDB (scheduleBlockEvent dropAllAddTwo table11)) = 2"
    by (simp add: dropAllAddTwo_def NewBlockEvent_def)
  have rest: "GetAbsentSize (mcDB table11) = 1 \<and>
   absentTables (mcDB (scheduleBlockEvent dropAllAddTwo table11)) = [2, 3] \<and>
   GetAbsentSize
     (mcDB (scheduleBlockEvent dropSchemaAddOne (scheduleBlockEvent dropAllAddTwo table11))) = 1 \<and>
   absentTables
     (mcDB (scheduleBlockEvent dropSchemaAddOne (scheduleBlockEvent dropAllAddTwo table11))) = [4] \<and>
   absentTables
     (mcDB (scheduleBlockEvent dropTableAddOne
        (scheduleBlockEvent dropSchemaAddOne (scheduleBlockEvent dropAllAddTwo table11)))) = [5]"
    by (simp add: table11_def dropAllAddTwo_def dropSchemaAddOne_def dropTableAddOne_def db_defs)
  from h1 h2 s1 rest show ?thesis by simp
qed

text \<open>
  C6. On a consistent DB, a block event that only carries the schema change
  (table, old schema, new schema) reindexes the spans of that table and nothing else:
  they get the new schema id, every other span is untouched, the indexes are consistent
  again (so the spans found under a schema id are exactly the spans that carry it, and
  the spans of the table are found under the new schema and no longer under another
  one), and the absent list and its size are unchanged. In the test's run the index of
  schema 1 is empty afterwards, that of schema 2 has one span, the span's schema id is 2
  and one span is absent as before.
\<close>

theorem scheduleBlockEvent_updates_schema:
  assumes "indexesConsistent (mcDB c)" and "dropDispatchers be = None"
    and "newTables be = []" and "schemaIDChange be = [ch]"
  shows "allTasks (mcDB (scheduleBlockEvent be c)) =
           map (\<lambda>sp. if TableID (Span sp) = scTableID ch
                     then sp\<lparr>schemaID := scNewSchemaID ch\<rparr> else sp)
             (allTasks (mcDB c)) \<and>
         GetTasksBySchemaID (mcDB (scheduleBlockEvent be c)) k =
           filter (\<lambda>sp. schemaID sp = k) (allTasks (mcDB (scheduleBlockEvent be c))) \<and>
         GetTasksByTableIDs (mcDB (scheduleBlockEvent be c)) [scTableID ch] =
           map (\<lambda>sp. sp\<lparr>schemaID := scNewSchemaID ch\<rparr>)
             (GetTasksByTableIDs (mcDB c) [scTableID ch]) \<and>
         absent (mcDB (scheduleBlockEvent be c)) = absent (mcDB c) \<and>
         GetAbsentSize (mcDB (scheduleBlockEvent be c)) = GetAbsentSize (mcDB c) \<and>
         indexesConsistent (mcDB (scheduleBlockEvent be c))"
proof -
  let ?db' = "UpdateSchemaID (mcDB c) (scTableID ch) (scNewSchemaID ch)"
  have db': "mcDB (scheduleBlockEvent be c) = ?db'"
    using assms(2-4) by (simp add: scheduleBlockEvent_def withDB_def mcDB_def)
  note u = UpdateSchemaID_consistent [OF assms(1), of "scTableID ch" "scNewSchemaID ch"]
  from u have cons: "indexesConsistent ?db'" by blast
  have bys: "GetTasksBySchemaID ?db' k = filter (\<lambda>sp. schemaID sp = k) (allTasks ?db')"
    by (rule GetTasksBySchemaID_consistent [OF cons])
  have byt: "GetTasksByTableIDs ?db' [scTableID ch] =
      map (\<lambda>sp. sp\<lparr>schemaID := scNewSchemaID ch\<rparr>) (GetTasksByTableIDs (mcDB c) [scTableID ch])"
  proof -
    have "filter (\<lambda>sp. TableID (Span sp) = scTableID ch)
        (map (\<lambda>sp. if TableID (Span sp) = scTableID ch
                   then sp\<lparr>schemaID := scNewSchemaID ch\<rparr> else sp) xs) =
      map (\<lambda>sp. sp\<lparr>schemaID := scNewSchemaID ch\<rparr>)
        (filter (\<lambda>sp. TableID (Span sp) = scTableID ch) xs)" for xs
      by (induction xs) simp_all
    then show ?thesis
      using u by (simp add: GetTasksByTableIDs_consistent [OF cons]
          GetTasksByTableIDs_consistent [OF assms(1)])
  qed
  from u bys byt show ?thesis
    unfolding db' by (simp add: GetAbsentSize_def)
qed

theorem scheduleBlockEvent_updates_schema_witness:
  "indexesConsistent (mcDB table11) \<and> dropDispatchers updateSchema = None \<and>
   newTables updateSchema = [] \<and>
   schemaIDChange updateSchema = [\<lparr>scTableID = 1, scOldSchemaID = 1, scNewSchemaID = 2\<rparr>] \<and>
   length (GetTasksBySchemaID (mcDB table11) 1) = 1 \<and>
   GetTasksBySchemaID (mcDB (scheduleBlockEvent updateSchema table11)) 1 = [] \<and>
   length (GetTasksBySchemaID (mcDB (scheduleBlockEvent updateSchema table11)) 2) = 1 \<and>
   map schemaID (GetTasksByTableIDs (mcDB (scheduleBlockEvent updateSchema table11)) [1]) = [2] \<and>
   GetAbsentSize (mcDB (scheduleBlockEvent updateSchema table11)) = 1"
proof -
  have h1: "indexesConsistent (mcDB table11)" by (rule consistent_table11)
  have h2: "dropDispatchers updateSchema = None" "newTables updateSchema = []"
    "schemaIDChange updateSchema = [\<lparr>scTableID = 1, scOldSchemaID = 1, scNewSchemaID = 2\<rparr>]"
    by (simp_all add: updateSchema_def NewBlockEvent_def)
  have one: "GetAbsentSize (mcDB table11) = 1"
    by (simp add: table11_def db_defs)
  from scheduleBlockEvent_updates_schema [OF h1 h2, of 1]
  have "GetAbsentSize (mcDB (scheduleBlockEvent updateSchema table11)) = GetAbsentSize (mcDB table11)"
    by blast
  with one have size: "GetAbsentSize (mcDB (scheduleBlockEvent updateSchema table11)) = 1"
    by simp
  have rest: "length (GetTasksBySchemaID (mcDB table11) 1) = 1 \<and>
   GetTasksBySchemaID (mcDB (scheduleBlockEvent updateSchema table11)) 1 = [] \<and>
   length (GetTasksBySchemaID (mcDB (scheduleBlockEvent updateSchema table11)) 2) = 1 \<and>
   map schemaID (GetTasksByTableIDs (mcDB (scheduleBlockEvent updateSchema table11)) [1]) = [2]"
    by (simp add: table11_def updateSchema_def db_defs)
  from h1 h2 size rest show ?thesis by simp
qed

text \<open>
  C2. \<open>resend\<close> returns no message when the event is not selected or when the last
  resend is inside the window. Selected and outside the window: before the writer has
  advanced it returns exactly one message, with one status carrying the write action at
  the block timestamp for the writer dispatcher; after the writer has advanced it
  returns exactly one response, with one status carrying the pass action at the block
  timestamp and the event's own influence type, with dispatcher ids listed only for the
  \<open>Normal\<close> type.
\<close>

theorem resend_policy:
  "(\<not> selected be \<longrightarrow> resend now be db = ([], be)) \<and>
   (now - lastResendTime be < resendWindow \<longrightarrow> resend now be db = ([], be)) \<and>
   (selected be \<and> resendWindow \<le> now - lastResendTime be \<and> \<not> writerDispatcherAdvanced be \<longrightarrow>
      (\<exists>m st. fst (resend now be db) = [m] \<and> dispatcherStatuses m = [st] \<and>
         action st = Some \<lparr>daAction = Action_Write, daCommitTs = commitTs be\<rparr> \<and>
         idDispatcherIDs (influencedDispatchers st) = [writerDispatcher be])) \<and>
   (selected be \<and> resendWindow \<le> now - lastResendTime be \<and> writerDispatcherAdvanced be \<and>
    blockedDispatchers be = Some bt \<longrightarrow>
      (\<exists>m st. fst (resend now be db) = [m] \<and> dispatcherStatuses m = [st] \<and>
         action st = Some \<lparr>daAction = Action_Pass, daCommitTs = commitTs be\<rparr> \<and>
         idInfluenceType (influencedDispatchers st) = itInfluenceType bt \<and>
         idDispatcherIDs (influencedDispatchers st) =
           (if itInfluenceType bt = InfluenceType_Normal
            then filter (\<lambda>i. i \<noteq> writerDispatcher be)
                   (map ID (GetTasksByTableIDs db (itTableIDs bt)))
            else [])))"
proof -
  have a: "\<not> selected be \<longrightarrow> resend now be db = ([], be)"
    by (simp add: resend_def)
  have b: "now - lastResendTime be < resendWindow \<longrightarrow> resend now be db = ([], be)"
    by (simp add: resend_def)
  have c: "selected be \<and> resendWindow \<le> now - lastResendTime be \<and>
      \<not> writerDispatcherAdvanced be \<longrightarrow>
      (\<exists>m st. fst (resend now be db) = [m] \<and> dispatcherStatuses m = [st] \<and>
         action st = Some \<lparr>daAction = Action_Write, daCommitTs = commitTs be\<rparr> \<and>
         idDispatcherIDs (influencedDispatchers st) = [writerDispatcher be])"
    by (simp add: resend_def newWriterActionMessage_def)
  have d: "selected be \<and> resendWindow \<le> now - lastResendTime be \<and>
      writerDispatcherAdvanced be \<and> blockedDispatchers be = Some bt \<longrightarrow>
      (\<exists>m st. fst (resend now be db) = [m] \<and> dispatcherStatuses m = [st] \<and>
         action st = Some \<lparr>daAction = Action_Pass, daCommitTs = commitTs be\<rparr> \<and>
         idInfluenceType (influencedDispatchers st) = itInfluenceType bt \<and>
         idDispatcherIDs (influencedDispatchers st) =
           (if itInfluenceType bt = InfluenceType_Normal
            then filter (\<lambda>i. i \<noteq> writerDispatcher be)
                   (map ID (GetTasksByTableIDs db (itTableIDs bt)))
            else []))"
    by (cases "itInfluenceType bt")
       (simp_all add: resend_def sendPassAction_def passInfluence_def)
  from a b c d show ?thesis by blast
qed

text \<open>
  The setting of the resend test: tables 1 and 2 of schema 1, both bound to
  \<open>node1\<close> and replicating, and a selected event over tables 1 and 2 whose writer
  has advanced.
\<close>

definition twoTablesOnNode1 :: ReplicationDB where
  "twoTablesOnNode1 =
     (let db = mcDB (AddNewTable table11 \<lparr>tblTableID = 2, tblSchemaID = 1\<rparr> 1) in
      foldl (\<lambda>d stm. MarkSpanReplicating (BindSpanToNode d [] ''node1'' stm) stm)
        db (GetScheduleSate db 100))"

definition blockEventFor :: "InfluencedTables \<Rightarrow> BarrierEvent" where
  "blockEventFor bt = NewBlockEvent ''test''
     \<lparr>IsBlocked = True, BlockTs = 10, BlockTables = Some bt,
      NeedDroppedTables = None, NeedAddedTables = [], UpdatedSchemas = []\<rparr>"

definition passNormal :: BarrierEvent where
  "passNormal =
     (blockEventFor \<lparr>itInfluenceType = InfluenceType_Normal, itTableIDs = [1, 2], itSchemaID = 1\<rparr>)
       \<lparr>selected := True, writerDispatcherAdvanced := True\<rparr>"

lemmas resend_defs = twoTablesOnNode1_def blockEventFor_def passNormal_def
  GetScheduleSate_def BindSpanToNode_def MarkSpanReplicating_def resend_def resendWindow_def
  sendPassAction_def passInfluence_def newWriterActionMessage_def

theorem resend_policy_witness:
  "selected passNormal \<and> writerDispatcherAdvanced passNormal \<and>
   resendWindow \<le> 1000 - lastResendTime passNormal \<and>
   blockedDispatchers passNormal =
     Some \<lparr>itInfluenceType = InfluenceType_Normal, itTableIDs = [1, 2], itSchemaID = 1\<rparr> \<and>
   fst (resend 1000 passNormal twoTablesOnNode1) =
     [\<lparr>hbChangefeedID = ''test'',
       dispatcherStatuses =
         [\<lparr>influencedDispatchers =
             \<lparr>idInfluenceType = InfluenceType_Normal, idDispatcherIDs = [(0, 1), (0, 2)],
              idSchemaID = 0, excludeDispatcherId = None\<rparr>,
           action = Some \<lparr>daAction = Action_Pass, daCommitTs = 10\<rparr>,
           ack = None\<rparr>]\<rparr>] \<and>
   fst (resend 1000 (passNormal\<lparr>selected := False\<rparr>) twoTablesOnNode1) = [] \<and>
   fst (resend 1000 (passNormal\<lparr>lastResendTime := 900\<rparr>) twoTablesOnNode1) = []"
  using resend_policy [of passNormal 1000 twoTablesOnNode1
      "\<lparr>itInfluenceType = InfluenceType_Normal, itTableIDs = [1, 2], itSchemaID = 1\<rparr>"]
  by (simp add: table11_def db_defs resend_defs)

text \<open>
  An operator controller over table 1 with an add operator installed for its span.
\<close>

definition addOp1 :: Operator where
  "addOp1 = \<lparr>opID = (0, 1), opKind = AddDispatcherOperator\<rparr>"

definition moveOp1 :: Operator where
  "moveOp1 = \<lparr>opID = (0, 1), opKind = MoveDispatcherOperator\<rparr>"

definition withAddOp1 :: Controller where
  "withAddOp1 = snd (AddOperator 0 (operatorController table11) addOp1)"

lemmas oc_defs = withAddOp1_def addOp1_def moveOp1_def AddOperator_def GetTaskByID_def
  heapPush_def table11_def db_defs

lemma withAddOp1_operators:
  "operators withAddOp1 = [(0, 1) \<mapsto> addOp1]"
  by (simp add: oc_defs)

theorem operator_singleton_invariant_witness:
  "operatorSingleton withAddOp1 \<and>
   operatorSingleton (snd (AddOperator 5 withAddOp1 moveOp1)) \<and>
   operatorSingleton (RemoveAllTasks withAddOp1) \<and>
   card (operatorsFor withAddOp1 (0, 1)) \<le> 1 \<and>
   operators withAddOp1 (opID moveOp1) = Some addOp1 \<and>
   AddOperator 5 withAddOp1 moveOp1 = (False, withAddOp1)"
proof -
  have inv: "operatorSingleton withAddOp1"
    by (simp add: operatorSingleton_def withAddOp1_operators) (simp add: addOp1_def)
  have "operators withAddOp1 (opID moveOp1) = Some addOp1"
    by (simp add: withAddOp1_operators moveOp1_def)
  with inv operator_singleton_invariant [OF inv, of _ _ _ 5 moveOp1 _ _ _ "(0, 1)"]
  show ?thesis by simp
qed

theorem AddOperator_rejects_or_installs_witness:
  "AddOperator 0 (operatorController table11) addOp1 = (True, withAddOp1) \<and>
   operators withAddOp1 (0, 1) = Some addOp1 \<and>
   calls withAddOp1 = [Start addOp1] \<and>
   runningQueue withAddOp1 = [\<lparr>itemOp = addOp1, itemTime = 0\<rparr>] \<and>
   AddOperator 5 withAddOp1 moveOp1 = (False, withAddOp1) \<and>
   AddOperator 0 (operatorController table11) \<lparr>opID = (0, 7), opKind = AddDispatcherOperator\<rparr> =
     (False, operatorController table11)"
proof -
  have 1: "operators (operatorController table11) (opID addOp1) = None \<and>
      (\<exists>s\<in>set (allTasks (replicationDB (operatorController table11))). ID s = opID addOp1)"
    by (simp add: oc_defs)
  have 2: "operators withAddOp1 (opID moveOp1) \<noteq> None"
    by (simp add: withAddOp1_operators moveOp1_def)
  have 3: "\<forall>s\<in>set (allTasks (replicationDB (operatorController table11))).
      ID s \<noteq> opID \<lparr>opID = (0, 7), opKind = AddDispatcherOperator\<rparr>"
    by (simp add: oc_defs)
  from 1 AddOperator_rejects_or_installs [of "operatorController table11" addOp1 0]
  have a: "AddOperator 0 (operatorController table11) addOp1 = (True, withAddOp1) \<and>
      operators withAddOp1 (0, 1) = Some addOp1 \<and> calls withAddOp1 = [Start addOp1] \<and>
      runningQueue withAddOp1 = [\<lparr>itemOp = addOp1, itemTime = 0\<rparr>]"
    by (simp add: oc_defs)
  from 2 AddOperator_rejects_or_installs [of withAddOp1 moveOp1 5]
  have b: "AddOperator 5 withAddOp1 moveOp1 = (False, withAddOp1)" by blast
  from 3 AddOperator_rejects_or_installs [of "operatorController table11"
      "\<lparr>opID = (0, 7), opKind = AddDispatcherOperator\<rparr>" 0]
  have c: "AddOperator 0 (operatorController table11)
      \<lparr>opID = (0, 7), opKind = AddDispatcherOperator\<rparr> = (False, operatorController table11)"
    by blast
  from a b c show ?thesis by simp
qed

theorem remove_operator_supersedes_witness:
  "distinct (map ID (allTasks (replicationDB withAddOp1))) \<and>
   operators withAddOp1 (0, 1) = Some addOp1 \<and>
   supersedes withAddOp1 (fst (TryRemoveAll (replicationDB withAddOp1)))
     (RemoveAllTasks withAddOp1) \<and>
   calls (RemoveAllTasks withAddOp1) = [Start addOp1, OnTaskRemoved addOp1] \<and>
   operators (RemoveAllTasks withAddOp1) (0, 1) =
     Some \<lparr>opID = (0, 1), opKind = RemoveDispatcherOperator\<rparr>"
proof -
  have d: "distinct (map ID (allTasks (replicationDB withAddOp1)))"
    by (simp add: oc_defs)
  have "calls (RemoveAllTasks withAddOp1) = [Start addOp1, OnTaskRemoved addOp1] \<and>
   operators (RemoveAllTasks withAddOp1) (0, 1) =
     Some \<lparr>opID = (0, 1), opKind = RemoveDispatcherOperator\<rparr>"
    by (simp add: oc_defs)
  with d remove_operator_supersedes [OF d, of 1 "[1]"] withAddOp1_operators
  show ?thesis by simp
qed


text \<open>
  The replaced operator is still in the running queue. When the next poll pops it and
  finds it finished, the controller calls its \<open>PostFinish\<close> and deletes the map entry
  of its id, which by then is the new remove operator.
\<close>

lemma poll_after_removeReplicaSet:
  assumes "operators oc (opID op) = Some old" and "opID old = opID op"
    and "heapPop (runningQueue oc) = Some (item, rest)" and "itemOp item = old"
    and "IsFinished old"
  shows "pollQueueingOperator IsFinished now (removeReplicaSet oc op) =
           (None, True,
            (removeReplicaSet oc op)
              \<lparr>runningQueue := rest,
               calls := calls oc @ [OnTaskRemoved old, PostFinish old],
               operators := (operators oc)(opID op := None)\<rparr>)"
  using assms
  by (simp add: pollQueueingOperator_def removeReplicaSet_def)

text \<open>
  C4. The claim fails on the code. With an add operator installed and queued for the
  span of table 1, \<open>RemoveAllTasks\<close> calls the old operator's \<open>OnTaskRemoved\<close> and
  puts the remove operator in the map, but leaves the old operator in the running
  queue. The next \<open>pollQueueingOperator\<close>, with the old operator finished, calls the
  old operator's \<open>PostFinish\<close> and deletes the new remove operator from the map.
\<close>

theorem superseded_operator_gets_PostFinish:
  "operators withAddOp1 (0, 1) = Some addOp1 \<and>
   runningQueue withAddOp1 = [\<lparr>itemOp = addOp1, itemTime = 0\<rparr>] \<and>
   operators (RemoveAllTasks withAddOp1) (0, 1) =
     Some \<lparr>opID = (0, 1), opKind = RemoveDispatcherOperator\<rparr> \<and>
   calls (RemoveAllTasks withAddOp1) = [Start addOp1, OnTaskRemoved addOp1] \<and>
   runningQueue (RemoveAllTasks withAddOp1) = [\<lparr>itemOp = addOp1, itemTime = 0\<rparr>] \<and>
   fst (pollQueueingOperator (\<lambda>op. op = addOp1) 1 (RemoveAllTasks withAddOp1)) = None \<and>
   fst (snd (pollQueueingOperator (\<lambda>op. op = addOp1) 1 (RemoveAllTasks withAddOp1))) \<and>
   calls (snd (snd (pollQueueingOperator (\<lambda>op. op = addOp1) 1 (RemoveAllTasks withAddOp1)))) =
     [Start addOp1, OnTaskRemoved addOp1, PostFinish addOp1] \<and>
   operators (snd (snd (pollQueueingOperator (\<lambda>op. op = addOp1) 1 (RemoveAllTasks withAddOp1))))
     (0, 1) = None"
  by (simp add: oc_defs pollQueueingOperator_def heapPop_def heapMin_def)

section \<open>Supervisor: admission and the scheduler chain\<close>

text \<open>
  The coordinator's \<open>Supervisor\<close>. smState machines, capture statuses, schedule tasks
  and \<open>handleScheduleTasks\<close> live in files that are not part of the sources at hand:
  \<^item> a state machine is its \<open>State\<close> (field \<open>smState\<close>) and the answer of \<open>HasRemoved()\<close>;
  \<^item> \<open>GetSchedulingMessage\<close> is a parameter; it is called on the pointer found in
    \<open>StateMachines\<close>, which is nil (\<open>None\<close>) when the id has no state machine;
  \<^item> \<open>handleScheduleTasks\<close> is a parameter that takes the tasks and the state;
  \<^item> a scheduler is the function behind its \<open>Schedule\<close> method;
  \<^item> \<open>GetAllCaptures()\<close> and \<open>GetInferiors()\<close> are read as returning the
    captures and the state machines;
  \<^item> tasks, messages and the inferior map are type parameters.
  \<open>RunningTasks\<close> is a Go map; the list gives the order in which the loop of
  \<open>checkRunningTasks\<close> visits it, with one entry for each key.
\<close>

type_synonym MaintainerID = string

datatype SchedulerStatus =
  SchedulerStatusAbsent | SchedulerStatusCommiting | SchedulerStatusWorking
  | SchedulerStatusRemoving

record StateMachine =
  smState :: SchedulerStatus
  HasRemoved :: bool

record CaptureStatus =
  capInitialized :: bool

type_synonym ('inf, 'task) Scheduler =
  "'inf \<Rightarrow> (NodeID \<times> CaptureStatus) list \<Rightarrow> (MaintainerID \<rightharpoonup> StateMachine) \<Rightarrow> int
     \<Rightarrow> 'task list"

record ('inf, 'task) Supervisor =
  svInitialized :: bool
  captures :: "(NodeID \<times> CaptureStatus) list"
  StateMachines :: "MaintainerID \<rightharpoonup> StateMachine"
  RunningTasks :: "(MaintainerID \<times> 'task) list"
  maxTaskConcurrency :: int
  schedulers :: "('inf, 'task) Scheduler list"

text \<open>
  Modelled from the spec: \<open>CheckAllCaptureInitialized\<close> holds when the supervisor is
  svInitialized and every registered capture has returned its bootstrap.
\<close>

definition CheckAllCaptureInitialized :: "('inf, 'task) Supervisor \<Rightarrow> bool" where
  "CheckAllCaptureInitialized s \<longleftrightarrow>
     svInitialized s \<and> list_all (\<lambda>(n, c). capInitialized c) (captures s)"

fun schedule :: "('inf, 'task) Scheduler list \<Rightarrow> 'inf \<Rightarrow> (NodeID \<times> CaptureStatus) list
    \<Rightarrow> (MaintainerID \<rightharpoonup> StateMachine) \<Rightarrow> int \<Rightarrow> 'task list" where
  "schedule [] allInferiors aliveCaptures stateMachines maxTaskCount = []"
| "schedule (sched # rest) allInferiors aliveCaptures stateMachines maxTaskCount =
     (let tasks = sched allInferiors aliveCaptures stateMachines maxTaskCount in
      if length tasks \<noteq> 0 then tasks
      else schedule rest allInferiors aliveCaptures stateMachines maxTaskCount)"

definition taskFinished :: "StateMachine option \<Rightarrow> bool" where
  "taskFinished sm =
     (case sm of
        None \<Rightarrow> True
      | Some m \<Rightarrow> HasRemoved m \<or> smState m = SchedulerStatusWorking)"

definition checkRunningTasks :: "(StateMachine option \<Rightarrow> 'msg option)
    \<Rightarrow> ('inf, 'task) Supervisor \<Rightarrow> 'msg list \<times> ('inf, 'task) Supervisor" where
  "checkRunningTasks GetSchedulingMessage s =
     (let toBeDeleted =
            filter (\<lambda>i. taskFinished (StateMachines s i)) (map fst (RunningTasks s));
          msgs =
            List.map_filter (\<lambda>i. GetSchedulingMessage (StateMachines s i))
              (map fst (RunningTasks s))
      in (msgs, s\<lparr>RunningTasks := filter (\<lambda>(i, t). i \<notin> set toBeDeleted) (RunningTasks s)\<rparr>))"

definition Schedule ::
  "('task list \<Rightarrow> ('inf, 'task) Supervisor \<Rightarrow> ('inf, 'task) Supervisor)
     \<Rightarrow> (StateMachine option \<Rightarrow> 'msg option)
     \<Rightarrow> ('inf, 'task) Supervisor \<Rightarrow> 'inf \<Rightarrow> 'msg list \<times> ('inf, 'task) Supervisor" where
  "Schedule handleScheduleTasks GetSchedulingMessage s allInferiors =
     (case checkRunningTasks GetSchedulingMessage s of
        (msgs, s1) \<Rightarrow>
          if \<not> CheckAllCaptureInitialized s1 then (msgs, s1)
          else
            (let maxTaskCount = maxTaskConcurrency s1 - int (length (RunningTasks s1)) in
             if maxTaskCount \<le> 0 then (msgs, s1)
             else
               (let tasks = schedule (schedulers s1) allInferiors (captures s1)
                              (StateMachines s1) maxTaskCount
                in (msgs, handleScheduleTasks tasks s1))))"

text \<open>
  What a tick works with: the running tasks left after \<open>checkRunningTasks\<close>, the
  budget computed from them, and the tasks the scheduler chain produces for it.
\<close>

definition stillRunning :: "('inf, 'task) Supervisor \<Rightarrow> (MaintainerID \<times> 'task) list" where
  "stillRunning s = filter (\<lambda>(i, t). \<not> taskFinished (StateMachines s i)) (RunningTasks s)"

definition taskBudget :: "('inf, 'task) Supervisor \<Rightarrow> int" where
  "taskBudget s = maxTaskConcurrency s - int (length (stillRunning s))"

definition newTasks :: "('inf, 'task) Supervisor \<Rightarrow> 'inf \<Rightarrow> 'task list" where
  "newTasks s allInferiors =
     schedule (schedulers s) allInferiors (captures s) (StateMachines s) (taskBudget s)"

definition runningMessages :: "(StateMachine option \<Rightarrow> 'msg option)
    \<Rightarrow> ('inf, 'task) Supervisor \<Rightarrow> 'msg list" where
  "runningMessages GetSchedulingMessage s =
     List.map_filter (\<lambda>i. GetSchedulingMessage (StateMachines s i)) (map fst (RunningTasks s))"

lemma checkRunningTasks_eq:
  "checkRunningTasks g s = (runningMessages g s, s\<lparr>RunningTasks := stillRunning s\<rparr>)"
proof -
  have "filter (\<lambda>(i, t). i \<notin> set (filter (\<lambda>i. taskFinished (StateMachines s i))
          (map fst (RunningTasks s)))) (RunningTasks s) = stillRunning s"
    unfolding stillRunning_def
    by (rule filter_cong [OF refl]) (auto simp: image_iff)
  then show ?thesis
    by (simp add: checkRunningTasks_def runningMessages_def Let_def)
qed

lemma schedule_first_nonempty:
  "(schedule scheds infs caps sms n = [] \<and> (\<forall>sched\<in>set scheds. sched infs caps sms n = [])) \<or>
   (\<exists>i<length scheds. schedule scheds infs caps sms n = (scheds ! i) infs caps sms n \<and>
      (scheds ! i) infs caps sms n \<noteq> [] \<and> (\<forall>j<i. (scheds ! j) infs caps sms n = []))"
proof (induction scheds)
  case Nil
  show ?case by simp
next
  case (Cons sched rest)
  show ?case
  proof (cases "sched infs caps sms n = []")
    case False
    then have "schedule (sched # rest) infs caps sms n = ((sched # rest) ! 0) infs caps sms n \<and>
      ((sched # rest) ! 0) infs caps sms n \<noteq> [] \<and>
      (\<forall>j<0. ((sched # rest) ! j) infs caps sms n = [])"
      by (simp add: Let_def)
    then show ?thesis by blast
  next
    case True
    then have eq: "schedule (sched # rest) infs caps sms n = schedule rest infs caps sms n"
      by (simp add: Let_def)
    from Cons.IH show ?thesis
    proof
      assume "schedule rest infs caps sms n = [] \<and> (\<forall>s\<in>set rest. s infs caps sms n = [])"
      with True eq show ?thesis by simp
    next
      assume "\<exists>i<length rest. schedule rest infs caps sms n = (rest ! i) infs caps sms n \<and>
        (rest ! i) infs caps sms n \<noteq> [] \<and> (\<forall>j<i. (rest ! j) infs caps sms n = [])"
      then obtain i where i: "i < length rest"
        "schedule rest infs caps sms n = (rest ! i) infs caps sms n"
        "(rest ! i) infs caps sms n \<noteq> []" "\<forall>j<i. (rest ! j) infs caps sms n = []"
        by blast
      have "\<forall>j<Suc i. ((sched # rest) ! j) infs caps sms n = []"
      proof (intro allI impI)
        fix j assume "j < Suc i"
        then show "((sched # rest) ! j) infs caps sms n = []"
          using True i(4) by (cases j) simp_all
      qed
      with i eq have "Suc i < length (sched # rest) \<and>
        schedule (sched # rest) infs caps sms n = ((sched # rest) ! Suc i) infs caps sms n \<and>
        ((sched # rest) ! Suc i) infs caps sms n \<noteq> [] \<and>
        (\<forall>j<Suc i. ((sched # rest) ! j) infs caps sms n = [])"
        by simp
      then show ?thesis by blast
    qed
  qed
qed

text \<open>
  C9 (amended). \<open>Schedule\<close> always returns the scheduling messages of the running
  tasks. When not all captures are initialized, or when \<open>maxTaskConcurrency\<close> minus
  the number of running tasks (counted after \<open>checkRunningTasks\<close> has dropped the
  finished ones) is \<open>\<le> 0\<close>, nothing else happens: no task is generated and
  \<open>handleScheduleTasks\<close> is not called. Otherwise every scheduler that is asked gets
  that difference as its \<open>maxTaskCount\<close>, and \<open>handleScheduleTasks\<close> receives,
  as it is, the list of the first scheduler in the chain that returns a non-empty one
  (the empty list when all return empty lists).
\<close>

theorem Schedule_admission:
  "fst (Schedule h g s infs) = runningMessages g s \<and>
   (\<not> CheckAllCaptureInitialized s \<or> taskBudget s \<le> 0 \<longrightarrow>
      Schedule h g s infs = (runningMessages g s, s\<lparr>RunningTasks := stillRunning s\<rparr>)) \<and>
   (CheckAllCaptureInitialized s \<and> 0 < taskBudget s \<longrightarrow>
      Schedule h g s infs =
        (runningMessages g s, h (newTasks s infs) (s\<lparr>RunningTasks := stillRunning s\<rparr>)) \<and>
      ((newTasks s infs = [] \<and>
          (\<forall>sched\<in>set (schedulers s).
             sched infs (captures s) (StateMachines s) (taskBudget s) = [])) \<or>
       (\<exists>i<length (schedulers s).
          newTasks s infs = (schedulers s ! i) infs (captures s) (StateMachines s) (taskBudget s) \<and>
          newTasks s infs \<noteq> [] \<and>
          (\<forall>j<i. (schedulers s ! j) infs (captures s) (StateMachines s) (taskBudget s) = []))))"
proof -
  define s1 where "s1 = s\<lparr>RunningTasks := stillRunning s\<rparr>"
  have c: "checkRunningTasks g s = (runningMessages g s, s1)"
    by (simp add: checkRunningTasks_eq s1_def)
  have init: "CheckAllCaptureInitialized s1 = CheckAllCaptureInitialized s"
    by (simp add: CheckAllCaptureInitialized_def s1_def)
  have budget: "maxTaskConcurrency s1 - int (length (RunningTasks s1)) = taskBudget s"
    by (simp add: taskBudget_def s1_def)
  have tasks: "schedule (schedulers s1) infs (captures s1) (StateMachines s1) (taskBudget s) =
      newTasks s infs"
    by (simp add: newTasks_def s1_def)
  have S: "Schedule h g s infs =
      (if \<not> CheckAllCaptureInitialized s \<or> taskBudget s \<le> 0 then (runningMessages g s, s1)
       else (runningMessages g s, h (newTasks s infs) s1))"
    by (simp add: Schedule_def c init budget tasks Let_def)
  have 1: "fst (Schedule h g s infs) = runningMessages g s"
    by (simp add: S)
  have 2: "\<not> CheckAllCaptureInitialized s \<or> taskBudget s \<le> 0 \<longrightarrow>
      Schedule h g s infs = (runningMessages g s, s1)"
    by (simp add: S)
  have 3: "CheckAllCaptureInitialized s \<and> 0 < taskBudget s \<longrightarrow>
      Schedule h g s infs = (runningMessages g s, h (newTasks s infs) s1)"
    by (simp add: S)
  have 4: "(newTasks s infs = [] \<and>
          (\<forall>sched\<in>set (schedulers s).
             sched infs (captures s) (StateMachines s) (taskBudget s) = [])) \<or>
       (\<exists>i<length (schedulers s).
          newTasks s infs = (schedulers s ! i) infs (captures s) (StateMachines s) (taskBudget s) \<and>
          newTasks s infs \<noteq> [] \<and>
          (\<forall>j<i. (schedulers s ! j) infs (captures s) (StateMachines s) (taskBudget s) = []))"
    using schedule_first_nonempty
      [of "schedulers s" infs "captures s" "StateMachines s" "taskBudget s"]
    unfolding newTasks_def by metis
  from 1 2 3 4 show ?thesis unfolding s1_def by blast
qed

text \<open>
  Two running tasks, one of them finished (its state machine is working), a limit of two
  and a chain whose first scheduler has nothing to do.
\<close>

definition exampleSupervisor :: "(unit, nat) Supervisor" where
  "exampleSupervisor =
     \<lparr>svInitialized = True,
      captures = [(''node1'', \<lparr>capInitialized = True\<rparr>)],
      StateMachines =
        [''cf1'' \<mapsto> \<lparr>smState = SchedulerStatusWorking, HasRemoved = False\<rparr>,
         ''cf2'' \<mapsto> \<lparr>smState = SchedulerStatusCommiting, HasRemoved = False\<rparr>],
      RunningTasks = [(''cf1'', 1), (''cf2'', 2)],
      maxTaskConcurrency = 2,
      schedulers = [\<lambda>_ _ _ _. [], \<lambda>_ _ _ n. take (nat n) [10, 11, 12]]\<rparr>"

definition exampleMessage :: "StateMachine option \<Rightarrow> string option" where
  "exampleMessage sm =
     (case sm of
        None \<Rightarrow> None
      | Some m \<Rightarrow> if smState m = SchedulerStatusCommiting then Some ''add'' else None)"

definition exampleHandle :: "nat list \<Rightarrow> (unit, nat) Supervisor \<Rightarrow> (unit, nat) Supervisor" where
  "exampleHandle tasks s = s\<lparr>RunningTasks := RunningTasks s @ map (\<lambda>t. (''cf3'', t)) tasks\<rparr>"

lemmas supervisor_defs = exampleSupervisor_def exampleMessage_def exampleHandle_def
  CheckAllCaptureInitialized_def taskBudget_def stillRunning_def taskFinished_def
  newTasks_def runningMessages_def List.map_filter_def

theorem Schedule_admission_witness:
  "CheckAllCaptureInitialized exampleSupervisor \<and>
   maxTaskConcurrency exampleSupervisor - int (length (RunningTasks exampleSupervisor)) = 0 \<and>
   taskBudget exampleSupervisor = 1 \<and>
   newTasks exampleSupervisor () = [10] \<and>
   Schedule exampleHandle exampleMessage exampleSupervisor () =
     ([''add''], exampleSupervisor\<lparr>RunningTasks := [(''cf2'', 2), (''cf3'', 10)]\<rparr>) \<and>
   Schedule exampleHandle exampleMessage (exampleSupervisor\<lparr>svInitialized := False\<rparr>) () =
     ([''add''], exampleSupervisor\<lparr>svInitialized := False, RunningTasks := [(''cf2'', 2)]\<rparr>)"
proof -
  have a: "CheckAllCaptureInitialized exampleSupervisor \<and> 0 < taskBudget exampleSupervisor"
    by (simp add: supervisor_defs)
  have c: "\<not> CheckAllCaptureInitialized (exampleSupervisor\<lparr>svInitialized := False\<rparr>)"
    by (simp add: supervisor_defs)
  have d: "newTasks exampleSupervisor () = [10]"
    by (simp add: supervisor_defs)
  from a Schedule_admission [of exampleHandle exampleMessage exampleSupervisor "()"]
  have "Schedule exampleHandle exampleMessage exampleSupervisor () =
      (runningMessages exampleMessage exampleSupervisor,
       exampleHandle (newTasks exampleSupervisor ())
         (exampleSupervisor\<lparr>RunningTasks := stillRunning exampleSupervisor\<rparr>))"
    by blast
  moreover from c
    Schedule_admission [of exampleHandle exampleMessage "exampleSupervisor\<lparr>svInitialized := False\<rparr>" "()"]
  have "Schedule exampleHandle exampleMessage (exampleSupervisor\<lparr>svInitialized := False\<rparr>) () =
      (runningMessages exampleMessage (exampleSupervisor\<lparr>svInitialized := False\<rparr>),
       exampleSupervisor\<lparr>svInitialized := False,
         RunningTasks := stillRunning (exampleSupervisor\<lparr>svInitialized := False\<rparr>)\<rparr>)"
    by simp
  ultimately show ?thesis
    using a d by (simp add: supervisor_defs)
qed

text \<open>
  The claim as stated (at most \<open>maxTaskConcurrency\<close> minus the number of running
  tasks new tasks are produced) fails when a scheduler returns more than its
  \<open>maxTaskCount\<close>: with a budget of 1, the three tasks of the only scheduler all
  reach \<open>handleScheduleTasks\<close>.
\<close>

definition greedySupervisor :: "(unit, nat) Supervisor" where
  "greedySupervisor = exampleSupervisor\<lparr>schedulers := [\<lambda>_ _ _ _. [10, 11, 12]]\<rparr>"

theorem Schedule_passes_more_than_budget:
  "CheckAllCaptureInitialized greedySupervisor \<and>
   taskBudget greedySupervisor = 1 \<and>
   newTasks greedySupervisor () = [10, 11, 12] \<and>
   \<not> int (length (newTasks greedySupervisor ())) \<le> taskBudget greedySupervisor \<and>
   Schedule exampleHandle exampleMessage greedySupervisor () =
     ([''add''],
      greedySupervisor
        \<lparr>RunningTasks := [(''cf2'', 2), (''cf3'', 10), (''cf3'', 11), (''cf3'', 12)]\<rparr>)"
  by (simp add: greedySupervisor_def supervisor_defs Schedule_def checkRunningTasks_def)

end
